theory Spec2Isabelle
  imports Main "HOL-Library.Word" "HOL-Library.Sublist"
begin

section \<open>Process termination and undefined behaviour (macros.h)\<close>

text \<open>
  \<^verbatim>\<open>ASSERT(cond, msg)\<close> prints the message and calls \<^verbatim>\<open>exit(EXIT_FAILURE)\<close> when the
  condition is false; \<^verbatim>\<open>FATAL(msg)\<close> does so unconditionally. Both end the process, so a
  model function that can reach them returns a sum: \<open>Inl\<close> the way the process ended,
  \<open>Inr\<close> the state and value of a normal return. The static part of the message is kept
  to tell the exits apart. An exception that leaves a \<^verbatim>\<open>noexcept\<close> function calls
  \<^verbatim>\<open>std::terminate\<close>, and operations whose behaviour C++ leaves undefined (a remainder by
  zero, an access outside a vector) are a last kind of \<open>Inl\<close>.
\<close>

datatype fault = ASSERT_exit string | FATAL_exit string | Terminate string | Undefined string

definition ASSERT :: "bool \<Rightarrow> string \<Rightarrow> fault + unit" where
  "ASSERT cond msg = (if \<not> cond then Inl (ASSERT_exit msg) else Inr ())"

definition FATAL :: "string \<Rightarrow> fault + 'a" where
  "FATAL msg = Inl (FATAL_exit msg)"

text \<open>Sequencing: the second computation runs only when the first returned.\<close>

definition andThen :: "fault + 'a \<Rightarrow> ('a \<Rightarrow> fault + 'b) \<Rightarrow> fault + 'b" where
  "andThen m f = (case m of Inl e \<Rightarrow> Inl e | Inr x \<Rightarrow> f x)"

text \<open>\<^verbatim>\<open>size_t\<close> is 64 bits wide on the targets of this code; arithmetic on it wraps.\<close>

definition size_t :: "nat \<Rightarrow> nat" where
  "size_t n = n mod 2 ^ 64"

definition size_t_sub :: "nat \<Rightarrow> nat \<Rightarrow> nat" where
  "size_t_sub a b = (a + 2 ^ 64 - b) mod 2 ^ 64"

section \<open>The ring buffer (lf\_queue.h)\<close>

text \<open>
  The class holds the vector \<^verbatim>\<open>store_\<close> and three atomic \<^verbatim>\<open>size_t\<close> counters. A pointer
  into \<^verbatim>\<open>store_\<close> is modelled by the index of the slot it points to. Where the source
  misspells a name (\<^verbatim>\<open>next_read_index\<close> for the member \<^verbatim>\<open>next_read_index_\<close> in
  \<^verbatim>\<open>updateReadIndex\<close>, \<^verbatim>\<open>atomix\<close> for \<^verbatim>\<open>atomic\<close>), the model follows the name meant.
\<close>

record 'a LFQueue =
  store :: "'a list"
  next_write_index :: nat
  next_read_index :: nat
  num_elements :: nat

text \<open>The constructor; \<open>d\<close> is the value-initialised \<^verbatim>\<open>T()\<close> that fills the vector.\<close>

definition LFQueue_new :: "nat \<Rightarrow> 'a \<Rightarrow> 'a LFQueue" where
  "LFQueue_new num_elems d =
     \<lparr>store = replicate num_elems d, next_write_index = 0, next_read_index = 0,
      num_elements = 0\<rparr>"

definition size_LFQueue :: "'a LFQueue \<Rightarrow> nat" where
  "size_LFQueue q = num_elements q"

definition getNextToWrite :: "'a LFQueue \<Rightarrow> nat" where
  "getNextToWrite q = next_write_index q"

definition updateWriteIndex :: "'a LFQueue \<Rightarrow> fault + 'a LFQueue" where
  "updateWriteIndex q =
     (if length (store q) = 0 then Inl (Undefined ''remainder by zero'')
      else Inr (q\<lparr>next_write_index := size_t (next_write_index q + 1) mod length (store q),
                  num_elements := size_t (num_elements q + 1)\<rparr>))"

definition getNextToRead :: "'a LFQueue \<Rightarrow> nat option" where
  "getNextToRead q = (if size_LFQueue q \<noteq> 0 then Some (next_read_index q) else None)"

text \<open>
  The source advances the read index first and checks the count afterwards; the count is
  decremented only when the check passed.
\<close>

definition updateReadIndex :: "'a LFQueue \<Rightarrow> fault + 'a LFQueue" where
  "updateReadIndex q =
     (if length (store q) = 0 then Inl (Undefined ''remainder by zero'')
      else
        let q1 = q\<lparr>next_read_index := size_t (next_read_index q + 1) mod length (store q)\<rparr>
        in andThen (ASSERT (num_elements q1 \<noteq> 0) ''Read and invalid element in:'')
             (\<lambda>_. Inr (q1\<lparr>num_elements := num_elements q1 - 1\<rparr>)))"

text \<open>Access through a pointer obtained from the queue: outside the vector it is undefined.\<close>

definition write_slot :: "'a LFQueue \<Rightarrow> nat \<Rightarrow> 'a \<Rightarrow> fault + 'a LFQueue" where
  "write_slot q p v =
     (if p < length (store q) then Inr (q\<lparr>store := (store q)[p := v]\<rparr>)
      else Inl (Undefined ''store_ index out of range''))"

definition read_slot :: "'a LFQueue \<Rightarrow> nat \<Rightarrow> fault + 'a" where
  "read_slot q p =
     (if p < length (store q) then Inr (store q ! p)
      else Inl (Undefined ''store_ index out of range''))"

subsection \<open>Arbitrary sequences of the four operations\<close>





subsection \<open>One producer and one consumer, interleaved\<close>

text \<open>
  The producer is \<^verbatim>\<open>Logger::pushValue(const LogElement &)\<close>: it takes the pointer from
  \<^verbatim>\<open>getNextToWrite\<close>, assigns the element through it and calls \<^verbatim>\<open>updateWriteIndex\<close>.
  The consumer is the body of the loop of \<^verbatim>\<open>Logger::flushQueue\<close>: it takes the pointer
  from \<^verbatim>\<open>getNextToRead\<close>, stops when it is null, reads the element through it and calls
  \<^verbatim>\<open>updateReadIndex\<close>. Each of the three steps of either thread is atomic; a schedule
  says which thread moves next. The producer works through \<open>to_write\<close>, the consumer
  appends what it reads to \<open>was_read\<close>.
\<close>

datatype producer_pc = P_idle | P_has_slot nat | P_populated

datatype consumer_pc = C_idle | C_has_slot nat | C_consumed

record 'a spsc =
  queue :: "'a LFQueue"
  to_write :: "'a list"
  ppc :: producer_pc
  cpc :: consumer_pc
  was_read :: "'a list"

definition producer_step :: "'a spsc \<Rightarrow> fault + 'a spsc" where
  "producer_step s =
     (case to_write s of
        [] \<Rightarrow> Inr s
      | v # vs \<Rightarrow>
          (case ppc s of
             P_idle \<Rightarrow> Inr (s\<lparr>ppc := P_has_slot (getNextToWrite (queue s))\<rparr>)
           | P_has_slot p \<Rightarrow>
               andThen (write_slot (queue s) p v)
                 (\<lambda>q. Inr (s\<lparr>queue := q, ppc := P_populated\<rparr>))
           | P_populated \<Rightarrow>
               andThen (updateWriteIndex (queue s))
                 (\<lambda>q. Inr (s\<lparr>queue := q, to_write := vs, ppc := P_idle\<rparr>))))"

definition consumer_step :: "'a spsc \<Rightarrow> fault + 'a spsc" where
  "consumer_step s =
     (case cpc s of
        C_idle \<Rightarrow>
          (case getNextToRead (queue s) of
             None \<Rightarrow> Inr s
           | Some p \<Rightarrow> Inr (s\<lparr>cpc := C_has_slot p\<rparr>))
      | C_has_slot p \<Rightarrow>
          andThen (read_slot (queue s) p)
            (\<lambda>v. Inr (s\<lparr>was_read := was_read s @ [v], cpc := C_consumed\<rparr>))
      | C_consumed \<Rightarrow>
          andThen (updateReadIndex (queue s)) (\<lambda>q. Inr (s\<lparr>queue := q, cpc := C_idle\<rparr>)))"

datatype thread = Producer | Consumer

fun run_schedule :: "thread list \<Rightarrow> 'a spsc \<Rightarrow> fault + 'a spsc" where
  "run_schedule [] s = Inr s"
| "run_schedule (Producer # ts) s = andThen (producer_step s) (run_schedule ts)"
| "run_schedule (Consumer # ts) s = andThen (consumer_step s) (run_schedule ts)"

text \<open>
  The start of a run: the queue as it stands, the sequence the producer will write, both
  threads between two calls, nothing read yet.
\<close>

definition spsc_on :: "'a LFQueue \<Rightarrow> 'a list \<Rightarrow> 'a spsc" where
  "spsc_on q vals = \<lparr>queue = q, to_write = vals, ppc = P_idle, cpc = C_idle, was_read = []\<rparr>"

text \<open>
  The invariant of a run over the sequence \<open>xs\<close> (what the queue held at the start, then
  what the producer writes) that began with the read index at \<open>r0\<close>: \<open>a\<close> reads and \<open>b\<close>
  writes have been committed, the \<open>i\<close>-th element of \<open>xs\<close> sits in slot \<open>(r0 + i) mod N\<close>
  for every \<open>i\<close> below \<open>b\<close> (and for \<open>b\<close> once the slot is populated), and the consumer has
  read a prefix of \<open>xs\<close>.
\<close>

definition fifo_inv :: "nat \<Rightarrow> 'a list \<Rightarrow> 'a spsc \<Rightarrow> bool" where
  "fifo_inv r0 xs s =
     (\<exists>a b. a \<le> b \<and> b \<le> length xs \<and> length xs \<le> length (store (queue s)) \<and>
        0 < length (store (queue s)) \<and>
        length (store (queue s)) < 18446744073709551616 \<and>
        num_elements (queue s) = b - a \<and>
        to_write s = drop b xs \<and>
        next_read_index (queue s) = (r0 + a) mod length (store (queue s)) \<and>
        next_write_index (queue s) = (r0 + b) mod length (store (queue s)) \<and>
        (\<forall>i < b + (if ppc s = P_populated then 1 else 0).
           store (queue s) ! ((r0 + i) mod length (store (queue s))) = xs ! i) \<and>
        was_read s = take (a + (if cpc s = C_consumed then 1 else 0)) xs \<and>
        (cpc s \<noteq> C_idle \<longrightarrow> a < b) \<and>
        (\<forall>p. cpc s = C_has_slot p \<longrightarrow> p = next_read_index (queue s)) \<and>
        (\<forall>p. ppc s = P_has_slot p \<longrightarrow> p = next_write_index (queue s)))"

text \<open>
  The number of steps either thread still has to take: three for every element not yet
  written (not yet read), less those already taken on the element in hand.
\<close>

definition producer_steps_left :: "'a spsc \<Rightarrow> nat" where
  "producer_steps_left s =
     (if to_write s = [] then 0
      else 3 * length (to_write s) -
           (case ppc s of P_idle \<Rightarrow> 0 | P_has_slot p \<Rightarrow> 1 | P_populated \<Rightarrow> 2))"

definition consumer_steps_left :: "'a spsc \<Rightarrow> nat" where
  "consumer_steps_left s =
     3 * num_elements (queue s) -
     (case cpc s of C_idle \<Rightarrow> 0 | C_has_slot p \<Rightarrow> 1 | C_consumed \<Rightarrow> 2)"

section \<open>The object pool (\<^verbatim>\<open>MemPool\<close>)\<close>

text \<open>
  A pool is the vector of blocks, each an object with its \<^verbatim>\<open>is_free_\<close> flag, and the
  index where the search for a free block starts. A handle (the \<^verbatim>\<open>T *\<close> that
  \<^verbatim>\<open>allocate\<close> returns) is modelled by the index of its block; \<^verbatim>\<open>deallocate\<close> receives
  the index that the pointer difference computes, which may be negative or too large.
  The source writes \<^verbatim>\<open>++next_free_index\<close> and \<^verbatim>\<open>.is_free\<close> where the members
  \<^verbatim>\<open>next_free_index_\<close> and \<^verbatim>\<open>is_free_\<close> are meant.
\<close>

record 'a ObjectBlock =
  object :: 'a
  is_free :: bool

record 'a MemPool =
  pool_store :: "'a ObjectBlock list"
  next_free_index :: nat

text \<open>
  The constructor. Its assertion compares the address of the first block with the address
  of the object inside it; the object is the first member, so it holds.
\<close>

definition MemPool_new :: "nat \<Rightarrow> 'a \<Rightarrow> 'a MemPool" where
  "MemPool_new num_elems d =
     \<lparr>pool_store = replicate num_elems \<lparr>object = d, is_free = True\<rparr>, next_free_index = 0\<rparr>"

text \<open>
  The loop of \<^verbatim>\<open>updateNextFreeIndex\<close>. The increment cannot wrap, the index being
  below the size of the vector. When the search is back where it started the source
  evaluates \<^verbatim>\<open>ASSERT(initial_free_index != next_free_index_, ...)\<close>, which then fails.
\<close>

function updateNextFreeIndex_loop :: "nat \<Rightarrow> 'a MemPool \<Rightarrow> fault + 'a MemPool" where
  "updateNextFreeIndex_loop initial_free_index p =
     (if next_free_index p < length (pool_store p) \<and> initial_free_index < length (pool_store p)
      then
        if \<not> is_free (pool_store p ! next_free_index p) then
          let p1 = p\<lparr>next_free_index := next_free_index p + 1\<rparr>;
              p2 = (if next_free_index p1 = length (pool_store p1)
                    then p1\<lparr>next_free_index := 0\<rparr> else p1)
          in if initial_free_index = next_free_index p2
             then Inl (ASSERT_exit ''Memory Pool out of space.'')
             else updateNextFreeIndex_loop initial_free_index p2
        else Inr p
      else Inl (Undefined ''store_ index out of range''))"
  by pat_completeness auto
termination
  by (relation "measure (\<lambda>(i, p).
        if i \<le> next_free_index p then length (pool_store p) - next_free_index p + i
        else i - next_free_index p)")
     (auto simp: Let_def split: if_splits)

definition updateNextFreeIndex :: "'a MemPool \<Rightarrow> fault + 'a MemPool" where
  "updateNextFreeIndex p = updateNextFreeIndex_loop (next_free_index p) p"

definition allocate :: "'a MemPool \<Rightarrow> 'a \<Rightarrow> fault + ('a MemPool \<times> nat)" where
  "allocate p v =
     (if next_free_index p < length (pool_store p) then
        andThen (ASSERT (is_free (pool_store p ! next_free_index p))
                   ''Expected free ObjectBlock at index:'')
          (\<lambda>_. let ret = next_free_index p;
                   p1 = p\<lparr>pool_store := (pool_store p)[ret := \<lparr>object = v, is_free = False\<rparr>]\<rparr>
               in andThen (updateNextFreeIndex p1) (\<lambda>p2. Inr (p2, ret)))
      else Inl (Undefined ''store_ index out of range''))"

definition deallocate :: "'a MemPool \<Rightarrow> int \<Rightarrow> fault + 'a MemPool" where
  "deallocate p elem_index =
     andThen (ASSERT (elem_index \<ge> 0 \<and> nat elem_index < length (pool_store p))
                ''Element being deallocated does not belong to this Memory pool.'')
       (\<lambda>_. andThen (ASSERT (\<not> is_free (pool_store p ! nat elem_index))
                        ''Expected in-use ObjectBlock at index:'')
          (\<lambda>_. Inr (p\<lparr>pool_store := (pool_store p)[nat elem_index :=
                        (pool_store p ! nat elem_index)\<lparr>is_free := True\<rparr>]\<rparr>)))"

text \<open>What every state of a pool satisfies: the search index stands at a free block.\<close>

definition pool_inv :: "'a MemPool \<Rightarrow> bool" where
  "pool_inv p =
     (next_free_index p < length (pool_store p) \<and> is_free (pool_store p ! next_free_index p))"

text \<open>
  The blocks that the search has yet to look at before it is back at \<open>initial\<close>, when it
  stands at \<open>cur\<close> in a vector of \<open>n\<close> blocks.
\<close>

definition unvisited :: "nat \<Rightarrow> nat \<Rightarrow> nat \<Rightarrow> nat set" where
  "unvisited initial cur n =
     (if initial \<le> cur then {cur..<n} \<union> {0..<initial} else {cur..<initial})"

section \<open>The logger (\<^verbatim>\<open>Logger\<close>)\<close>

subsection \<open>Log elements\<close>

text \<open>
  A \<^verbatim>\<open>LogElement\<close> is the kind tag \<^verbatim>\<open>type_\<close> and the union \<^verbatim>\<open>u_\<close>. The model of the union
  records which member was written last and its value; the tag is a separate field, as in
  the source, so an element whose tag disagrees with its union can be written down.
  \<^verbatim>\<open>int\<close> and \<^verbatim>\<open>unsigned\<close> are 32 bits wide, the \<^verbatim>\<open>long\<close> kinds 64 bits. The values
  of \<^verbatim>\<open>float\<close> and \<^verbatim>\<open>double\<close> are left abstract. The kind \<^verbatim>\<open>CHAR\<close> is written
  \<open>CHARACTER\<close>, the source's name being HOL syntax, and the fields \<^verbatim>\<open>type_\<close> and
  \<^verbatim>\<open>u_\<close> are \<open>elem_type\<close> and \<open>elem_u\<close>.
\<close>

typedecl cfloat

typedecl cdouble

datatype LogType = CHARACTER | INTEGER | LONG_INTEGER | LONG_LONG_INTEGER | UNSIGNED_INTEGER
  | UNSIGNED_LONG_INTEGER | UNSIGNED_LONG_LONG_INTEGER | FLOAT | DOUBLE

datatype u_member = U_c char | U_i "32 word" | U_l "64 word" | U_ll "64 word" | U_u "32 word"
  | U_ul "64 word" | U_ull "64 word" | U_f cfloat | U_d cdouble

record LogElement =
  elem_type :: LogType
  elem_u :: u_member

text \<open>Reading a member of the union other than the one written last is undefined.\<close>

definition inactive :: "fault + 'a" where
  "inactive = Inl (Undefined ''read of an inactive union member'')"

definition read_c :: "u_member \<Rightarrow> fault + char" where
  "read_c u = (case u of U_c v \<Rightarrow> Inr v | _ \<Rightarrow> inactive)"

definition read_i :: "u_member \<Rightarrow> fault + 32 word" where
  "read_i u = (case u of U_i v \<Rightarrow> Inr v | _ \<Rightarrow> inactive)"

definition read_l :: "u_member \<Rightarrow> fault + 64 word" where
  "read_l u = (case u of U_l v \<Rightarrow> Inr v | _ \<Rightarrow> inactive)"

definition read_ll :: "u_member \<Rightarrow> fault + 64 word" where
  "read_ll u = (case u of U_ll v \<Rightarrow> Inr v | _ \<Rightarrow> inactive)"

definition read_u :: "u_member \<Rightarrow> fault + 32 word" where
  "read_u u = (case u of U_u v \<Rightarrow> Inr v | _ \<Rightarrow> inactive)"

definition read_ul :: "u_member \<Rightarrow> fault + 64 word" where
  "read_ul u = (case u of U_ul v \<Rightarrow> Inr v | _ \<Rightarrow> inactive)"

definition read_ull :: "u_member \<Rightarrow> fault + 64 word" where
  "read_ull u = (case u of U_ull v \<Rightarrow> Inr v | _ \<Rightarrow> inactive)"

definition read_f :: "u_member \<Rightarrow> fault + cfloat" where
  "read_f u = (case u of U_f v \<Rightarrow> Inr v | _ \<Rightarrow> inactive)"

definition read_d :: "u_member \<Rightarrow> fault + cdouble" where
  "read_d u = (case u of U_d v \<Rightarrow> Inr v | _ \<Rightarrow> inactive)"

subsection \<open>Text written by the output stream\<close>

text \<open>
  \<^verbatim>\<open>file_ << v\<close> writes a character as itself and an integer in decimal, with a minus
  sign when it is negative. The text of a \<^verbatim>\<open>float\<close> or \<^verbatim>\<open>double\<close> is a parameter
  (\<open>sf\<close>, \<open>sd\<close>) of everything that writes one.
\<close>

fun show_nat :: "nat \<Rightarrow> string" where
  "show_nat n = (if n < 10 then [''0123456789'' ! n]
                 else show_nat (n div 10) @ [''0123456789'' ! (n mod 10)])"

declare show_nat.simps [simp del]

definition show_int :: "int \<Rightarrow> string" where
  "show_int i = (if i < 0 then CHR ''-'' # show_nat (nat (- i)) else show_nat (nat i))"

subsection \<open>The logger and its push operations\<close>

text \<open>
  The state of a logger: what has been written to the file, the queue and the running
  flag. Every \<^verbatim>\<open>pushValue\<close> overload is a function of its own; \<open>pushValue_elem\<close> is the one
  taking a \<^verbatim>\<open>LogElement\<close>, which the others call.
\<close>

record Logger =
  log_file :: string
  log_queue :: "LogElement LFQueue"
  running :: bool

definition LOG_QUEUE_SIZE :: nat where
  "LOG_QUEUE_SIZE = 8 * 1024 * 1024"

text \<open>The constructor, with the file just opened (and truncated) and the thread started.\<close>

definition Logger_new :: Logger where
  "Logger_new =
     \<lparr>log_file = [],
      log_queue = LFQueue_new LOG_QUEUE_SIZE \<lparr>elem_type = CHARACTER, elem_u = U_c (CHR 0x00)\<rparr>,
      running = True\<rparr>"

definition pushValue_elem :: "Logger \<Rightarrow> LogElement \<Rightarrow> fault + Logger" where
  "pushValue_elem l log_element =
     andThen (write_slot (log_queue l) (getNextToWrite (log_queue l)) log_element)
       (\<lambda>q. andThen (updateWriteIndex q) (\<lambda>q'. Inr (l\<lparr>log_queue := q'\<rparr>)))"

definition pushValue_char :: "Logger \<Rightarrow> char \<Rightarrow> fault + Logger" where
  "pushValue_char l v = pushValue_elem l \<lparr>elem_type = CHARACTER, elem_u = U_c v\<rparr>"

definition pushValue_int :: "Logger \<Rightarrow> 32 word \<Rightarrow> fault + Logger" where
  "pushValue_int l v = pushValue_elem l \<lparr>elem_type = INTEGER, elem_u = U_i v\<rparr>"

definition pushValue_long :: "Logger \<Rightarrow> 64 word \<Rightarrow> fault + Logger" where
  "pushValue_long l v = pushValue_elem l \<lparr>elem_type = LONG_INTEGER, elem_u = U_l v\<rparr>"

definition pushValue_long_long :: "Logger \<Rightarrow> 64 word \<Rightarrow> fault + Logger" where
  "pushValue_long_long l v = pushValue_elem l \<lparr>elem_type = LONG_LONG_INTEGER, elem_u = U_ll v\<rparr>"

definition pushValue_unsigned :: "Logger \<Rightarrow> 32 word \<Rightarrow> fault + Logger" where
  "pushValue_unsigned l v = pushValue_elem l \<lparr>elem_type = UNSIGNED_INTEGER, elem_u = U_u v\<rparr>"

definition pushValue_unsigned_long :: "Logger \<Rightarrow> 64 word \<Rightarrow> fault + Logger" where
  "pushValue_unsigned_long l v =
     pushValue_elem l \<lparr>elem_type = UNSIGNED_LONG_INTEGER, elem_u = U_ul v\<rparr>"

definition pushValue_unsigned_long_long :: "Logger \<Rightarrow> 64 word \<Rightarrow> fault + Logger" where
  "pushValue_unsigned_long_long l v =
     pushValue_elem l \<lparr>elem_type = UNSIGNED_LONG_LONG_INTEGER, elem_u = U_ull v\<rparr>"

definition pushValue_float :: "Logger \<Rightarrow> cfloat \<Rightarrow> fault + Logger" where
  "pushValue_float l v = pushValue_elem l \<lparr>elem_type = FLOAT, elem_u = U_f v\<rparr>"

definition pushValue_double :: "Logger \<Rightarrow> cdouble \<Rightarrow> fault + Logger" where
  "pushValue_double l v = pushValue_elem l \<lparr>elem_type = DOUBLE, elem_u = U_d v\<rparr>"

text \<open>
  A \<^verbatim>\<open>const char *\<close> is the list of the characters it points to; the walk stops at the
  terminator, which is the end of the list or a NUL character in it.
\<close>

fun pushValue_cstr :: "Logger \<Rightarrow> string \<Rightarrow> fault + Logger" where
  "pushValue_cstr l [] = Inr l"
| "pushValue_cstr l (c # cs) =
     (if c = CHR 0x00 then Inr l
      else case pushValue_char l c of Inl e \<Rightarrow> Inl e | Inr l' \<Rightarrow> pushValue_cstr l' cs)"

definition pushValue_string :: "Logger \<Rightarrow> string \<Rightarrow> fault + Logger" where
  "pushValue_string l v = pushValue_cstr l v"

text \<open>
  The arguments of the variadic \<^verbatim>\<open>log\<close>, one constructor for every type that has a
  \<^verbatim>\<open>pushValue\<close> overload; \<open>pushValue\<close> is the overload resolution.
\<close>

datatype log_arg = Arg_elem LogElement | Arg_char char | Arg_int "32 word" | Arg_long "64 word"
  | Arg_long_long "64 word" | Arg_unsigned "32 word" | Arg_unsigned_long "64 word"
  | Arg_unsigned_long_long "64 word" | Arg_float cfloat | Arg_double cdouble
  | Arg_cstr string | Arg_string string

fun pushValue :: "Logger \<Rightarrow> log_arg \<Rightarrow> fault + Logger" where
  "pushValue l (Arg_elem v) = pushValue_elem l v"
| "pushValue l (Arg_char v) = pushValue_char l v"
| "pushValue l (Arg_int v) = pushValue_int l v"
| "pushValue l (Arg_long v) = pushValue_long l v"
| "pushValue l (Arg_long_long v) = pushValue_long_long l v"
| "pushValue l (Arg_unsigned v) = pushValue_unsigned l v"
| "pushValue l (Arg_unsigned_long v) = pushValue_unsigned_long l v"
| "pushValue l (Arg_unsigned_long_long v) = pushValue_unsigned_long_long l v"
| "pushValue l (Arg_float v) = pushValue_float l v"
| "pushValue l (Arg_double v) = pushValue_double l v"
| "pushValue l (Arg_cstr v) = pushValue_cstr l v"
| "pushValue l (Arg_string v) = pushValue_string l v"

subsection \<open>\<^verbatim>\<open>log\<close>\<close>

text \<open>
  \<open>log_no_args\<close> is the overload without arguments. In both functions \<^verbatim>\<open>*(s + 1)\<close> is the
  head of the rest of the list, or the terminator when the rest is empty; after the
  \<^verbatim>\<open>++s\<close> of an escape, \<^verbatim>\<open>pushValue(*s++)\<close> pushes the second \<^verbatim>\<open>%\<close>.
\<close>

fun log_no_args :: "Logger \<Rightarrow> string \<Rightarrow> fault + Logger" where
  "log_no_args l [] = Inr l"
| "log_no_args l (c # cs) =
     (if c = CHR 0x00 then Inr l
      else if c = CHR ''%'' then
        (case cs of
           c' # cs' \<Rightarrow>
             if c' = CHR ''%'' then
               (case pushValue_char l c' of Inl e \<Rightarrow> Inl e | Inr l' \<Rightarrow> log_no_args l' cs')
             else FATAL ''missing arguments to log()''
         | [] \<Rightarrow> FATAL ''missing arguments to log()'')
      else case pushValue_char l c of Inl e \<Rightarrow> Inl e | Inr l' \<Rightarrow> log_no_args l' cs)"

fun log :: "Logger \<Rightarrow> string \<Rightarrow> log_arg list \<Rightarrow> fault + Logger" where
  "log l s [] = log_no_args l s"
| "log l [] (v # args) = FATAL ''extra arguments provided to log()''"
| "log l (c # cs) (v # args) =
     (if c = CHR 0x00 then FATAL ''extra arguments provided to log()''
      else if c = CHR ''%'' then
        (case cs of
           c' # cs' \<Rightarrow>
             if c' = CHR ''%'' then
               (case pushValue_char l c' of Inl e \<Rightarrow> Inl e
                | Inr l' \<Rightarrow> log l' cs' (v # args))
             else (case pushValue l v of Inl e \<Rightarrow> Inl e | Inr l' \<Rightarrow> log l' cs args)
         | [] \<Rightarrow> (case pushValue l v of Inl e \<Rightarrow> Inl e | Inr l' \<Rightarrow> log l' cs args))
      else case pushValue_char l c of Inl e \<Rightarrow> Inl e | Inr l' \<Rightarrow> log l' cs (v # args))"

subsection \<open>The flush task\<close>

text \<open>The \<^verbatim>\<open>switch\<close> of \<^verbatim>\<open>flushQueue\<close>: the text written for one element.\<close>

definition render :: "(cfloat \<Rightarrow> string) \<Rightarrow> (cdouble \<Rightarrow> string) \<Rightarrow> LogElement \<Rightarrow> fault + string"
  where
  "render sf sd next =
     (case elem_type next of
        CHARACTER \<Rightarrow> andThen (read_c (elem_u next)) (\<lambda>v. Inr [v])
      | INTEGER \<Rightarrow> andThen (read_i (elem_u next)) (\<lambda>v. Inr (show_int (sint v)))
      | LONG_INTEGER \<Rightarrow> andThen (read_l (elem_u next)) (\<lambda>v. Inr (show_int (sint v)))
      | LONG_LONG_INTEGER \<Rightarrow> andThen (read_ll (elem_u next)) (\<lambda>v. Inr (show_int (sint v)))
      | UNSIGNED_INTEGER \<Rightarrow> andThen (read_u (elem_u next)) (\<lambda>v. Inr (show_nat (unat v)))
      | UNSIGNED_LONG_INTEGER \<Rightarrow> andThen (read_ul (elem_u next)) (\<lambda>v. Inr (show_nat (unat v)))
      | UNSIGNED_LONG_LONG_INTEGER \<Rightarrow>
          andThen (read_ull (elem_u next)) (\<lambda>v. Inr (show_nat (unat v)))
      | FLOAT \<Rightarrow> andThen (read_f (elem_u next)) (\<lambda>v. Inr (sf v))
      | DOUBLE \<Rightarrow> andThen (read_d (elem_u next)) (\<lambda>v. Inr (sd v)))"

text \<open>
  The inner \<^verbatim>\<open>for\<close> loop of \<^verbatim>\<open>flushQueue\<close>: one pass over the elements available. The
  outer loop repeats the pass every 10 ms while \<^verbatim>\<open>running_\<close> is set.
\<close>

function flush_pass ::
  "(cfloat \<Rightarrow> string) \<Rightarrow> (cdouble \<Rightarrow> string) \<Rightarrow> Logger \<Rightarrow> fault + Logger" where
  "flush_pass sf sd l =
     (case getNextToRead (log_queue l) of
        None \<Rightarrow> Inr l
      | Some next \<Rightarrow>
          if size_LFQueue (log_queue l) = 0 then Inr l
          else
            (case read_slot (log_queue l) next of
               Inl e \<Rightarrow> Inl e
             | Inr elem \<Rightarrow>
                 (case render sf sd elem of
                    Inl e \<Rightarrow> Inl e
                  | Inr txt \<Rightarrow>
                      (case updateReadIndex (log_queue l) of
                         Inl e \<Rightarrow> Inl e
                       | Inr q' \<Rightarrow>
                           flush_pass sf sd (l\<lparr>log_file := log_file l @ txt, log_queue := q'\<rparr>)))))"
  by pat_completeness auto
termination
  by (relation "measure (\<lambda>(sf, sd, l). num_elements (log_queue l))")
     (auto simp: updateReadIndex_def andThen_def ASSERT_def Let_def size_LFQueue_def
        split: if_splits)

declare flush_pass.simps [simp del]

subsection \<open>What a call of \<^verbatim>\<open>log\<close> is meant to write\<close>

text \<open>
  The reading of a format string: left to right up to the terminator, \<^verbatim>\<open>%%\<close> is the
  literal character \<^verbatim>\<open>%\<close>, any other \<^verbatim>\<open>%\<close> is a placeholder. Filling replaces the
  placeholders, in order, by the texts of the arguments.
\<close>

datatype fmt_token = Literal char | Placeholder

fun fmt_tokens :: "string \<Rightarrow> fmt_token list" where
  "fmt_tokens [] = []"
| "fmt_tokens (c # cs) =
     (if c = CHR 0x00 then []
      else if c \<noteq> CHR ''%'' then Literal c # fmt_tokens cs
      else case cs of
             [] \<Rightarrow> [Placeholder]
           | c' # cs' \<Rightarrow>
               if c' = CHR ''%'' then Literal (CHR ''%'') # fmt_tokens cs'
               else Placeholder # fmt_tokens cs)"

definition placeholders :: "string \<Rightarrow> nat" where
  "placeholders s = count_list (fmt_tokens s) Placeholder"

text \<open>The elements that stand for a value in the queue, and the text of a value.\<close>

definition char_elem :: "char \<Rightarrow> LogElement" where
  "char_elem c = \<lparr>elem_type = CHARACTER, elem_u = U_c c\<rparr>"

definition c_str :: "string \<Rightarrow> string" where
  "c_str s = takeWhile (\<lambda>c. c \<noteq> CHR 0x00) s"

fun elems_of_arg :: "log_arg \<Rightarrow> LogElement list" where
  "elems_of_arg (Arg_elem v) = [v]"
| "elems_of_arg (Arg_char v) = [char_elem v]"
| "elems_of_arg (Arg_int v) = [\<lparr>elem_type = INTEGER, elem_u = U_i v\<rparr>]"
| "elems_of_arg (Arg_long v) = [\<lparr>elem_type = LONG_INTEGER, elem_u = U_l v\<rparr>]"
| "elems_of_arg (Arg_long_long v) = [\<lparr>elem_type = LONG_LONG_INTEGER, elem_u = U_ll v\<rparr>]"
| "elems_of_arg (Arg_unsigned v) = [\<lparr>elem_type = UNSIGNED_INTEGER, elem_u = U_u v\<rparr>]"
| "elems_of_arg (Arg_unsigned_long v) = [\<lparr>elem_type = UNSIGNED_LONG_INTEGER, elem_u = U_ul v\<rparr>]"
| "elems_of_arg (Arg_unsigned_long_long v) =
     [\<lparr>elem_type = UNSIGNED_LONG_LONG_INTEGER, elem_u = U_ull v\<rparr>]"
| "elems_of_arg (Arg_float v) = [\<lparr>elem_type = FLOAT, elem_u = U_f v\<rparr>]"
| "elems_of_arg (Arg_double v) = [\<lparr>elem_type = DOUBLE, elem_u = U_d v\<rparr>]"
| "elems_of_arg (Arg_cstr v) = map char_elem (c_str v)"
| "elems_of_arg (Arg_string v) = map char_elem (c_str v)"

definition text_of_elem :: "(cfloat \<Rightarrow> string) \<Rightarrow> (cdouble \<Rightarrow> string) \<Rightarrow> LogElement \<Rightarrow> string"
  where
  "text_of_elem sf sd e = (case render sf sd e of Inl x \<Rightarrow> [] | Inr txt \<Rightarrow> txt)"

fun text_of :: "(cfloat \<Rightarrow> string) \<Rightarrow> (cdouble \<Rightarrow> string) \<Rightarrow> log_arg \<Rightarrow> string" where
  "text_of sf sd (Arg_elem v) = text_of_elem sf sd v"
| "text_of sf sd (Arg_char v) = [v]"
| "text_of sf sd (Arg_int v) = show_int (sint v)"
| "text_of sf sd (Arg_long v) = show_int (sint v)"
| "text_of sf sd (Arg_long_long v) = show_int (sint v)"
| "text_of sf sd (Arg_unsigned v) = show_nat (unat v)"
| "text_of sf sd (Arg_unsigned_long v) = show_nat (unat v)"
| "text_of sf sd (Arg_unsigned_long_long v) = show_nat (unat v)"
| "text_of sf sd (Arg_float v) = sf v"
| "text_of sf sd (Arg_double v) = sd v"
| "text_of sf sd (Arg_cstr v) = c_str v"
| "text_of sf sd (Arg_string v) = c_str v"

fun fill :: "(log_arg \<Rightarrow> 'b list) \<Rightarrow> (char \<Rightarrow> 'b) \<Rightarrow> fmt_token list \<Rightarrow> log_arg list \<Rightarrow> 'b list"
  where
  "fill f g [] args = []"
| "fill f g (Literal c # ts) args = g c # fill f g ts args"
| "fill f g (Placeholder # ts) [] = []"
| "fill f g (Placeholder # ts) (a # args) = f a @ fill f g ts args"

definition expand ::
  "(cfloat \<Rightarrow> string) \<Rightarrow> (cdouble \<Rightarrow> string) \<Rightarrow> string \<Rightarrow> log_arg list \<Rightarrow> string" where
  "expand sf sd s args = fill (text_of sf sd) (\<lambda>c. c) (fmt_tokens s) args"

definition log_elements :: "string \<Rightarrow> log_arg list \<Rightarrow> LogElement list" where
  "log_elements s args = fill elems_of_arg char_elem (fmt_tokens s) args"

text \<open>The kind that goes with a member of the union.\<close>

fun tag_of :: "u_member \<Rightarrow> LogType" where
  "tag_of (U_c v) = CHARACTER"
| "tag_of (U_i v) = INTEGER"
| "tag_of (U_l v) = LONG_INTEGER"
| "tag_of (U_ll v) = LONG_LONG_INTEGER"
| "tag_of (U_u v) = UNSIGNED_INTEGER"
| "tag_of (U_ul v) = UNSIGNED_LONG_INTEGER"
| "tag_of (U_ull v) = UNSIGNED_LONG_LONG_INTEGER"
| "tag_of (U_f v) = FLOAT"
| "tag_of (U_d v) = DOUBLE"

definition well_tagged :: "LogElement \<Rightarrow> bool" where
  "well_tagged e = (elem_type e = tag_of (elem_u e))"

subsection \<open>The queue as a sequence\<close>

text \<open>
  The elements written and not yet read, oldest first, and the conditions under which
  the three counters describe them: the indices are inside the vector and the write index
  is the read index plus the count, modulo the capacity.
\<close>

definition pending :: "'a LFQueue \<Rightarrow> 'a list" where
  "pending q =
     map (\<lambda>j. store q ! ((next_read_index q + j) mod length (store q))) [0..<num_elements q]"

definition queue_ok :: "'a LFQueue \<Rightarrow> bool" where
  "queue_ok q =
     (0 < length (store q) \<and> length (store q) < 18446744073709551616 \<and>
      next_read_index q < length (store q) \<and> num_elements q \<le> length (store q) \<and>
      next_write_index q = (next_read_index q + num_elements q) mod length (store q))"

text \<open>One element put in by the producer, as a function on queues.\<close>

definition enqueue :: "'a LFQueue \<Rightarrow> 'a \<Rightarrow> 'a LFQueue" where
  "enqueue q e =
     q\<lparr>store := (store q)[next_write_index q := e],
       next_write_index := size_t (next_write_index q + 1) mod length (store q),
       num_elements := size_t (num_elements q + 1)\<rparr>"

definition log_ready :: "Logger \<Rightarrow> bool" where
  "log_ready l = (next_write_index (log_queue l) < length (store (log_queue l)))"

definition arg_well_tagged :: "log_arg \<Rightarrow> bool" where
  "arg_well_tagged a = (case a of Arg_elem e \<Rightarrow> well_tagged e | _ \<Rightarrow> True)"

section \<open>The multicast socket (\<^verbatim>\<open>McastSocket\<close>)\<close>

text \<open>
  The socket owns its descriptor, the two byte buffers and the two indices. The receive
  callback is a \<^verbatim>\<open>std::function\<close> taking the socket: an argument of the model, absent
  (\<open>None\<close>) when none was registered, and free to change the socket it is given. The calls
  of \<^verbatim>\<open>logger_.log\<close> are left out: each passes as many arguments as its format string has
  placeholders, so it returns, and it does not touch the socket.
\<close>

type_synonym byte = "8 word"

definition McastBufferSize :: nat where
  "McastBufferSize = 64 * 1024 * 1024"

record McastSocket =
  socket_fd :: int
  outbound_data :: "byte list"
  next_send_valid_index :: nat
  inbound_data :: "byte list"
  next_rcv_valid_index :: nat

definition McastSocket_new :: McastSocket where
  "McastSocket_new =
     \<lparr>socket_fd = - 1, outbound_data = replicate McastBufferSize 0, next_send_valid_index = 0,
      inbound_data = replicate McastBufferSize 0, next_rcv_valid_index = 0\<rparr>"

text \<open>\<^verbatim>\<open>memcpy(buf.data() + at, data, len)\<close>, defined while the bytes stay inside the vector.\<close>

definition memcpy_into :: "byte list \<Rightarrow> nat \<Rightarrow> byte list \<Rightarrow> fault + byte list" where
  "memcpy_into buf at data =
     (if at + length data \<le> length buf
      then Inr (take at buf @ data @ drop (at + length data) buf)
      else Inl (Undefined ''write beyond the end of the buffer''))"

text \<open>
  \<^verbatim>\<open>send\<close> copies first and checks afterwards. The argument is the list of the \<^verbatim>\<open>len\<close>
  bytes at \<^verbatim>\<open>data\<close>.
\<close>

definition McastSocket_send :: "McastSocket \<Rightarrow> byte list \<Rightarrow> fault + McastSocket" where
  "McastSocket_send s data =
     andThen (memcpy_into (outbound_data s) (next_send_valid_index s) data)
       (\<lambda>buf.
          let s1 = s\<lparr>outbound_data := buf,
                     next_send_valid_index := size_t (next_send_valid_index s + length data)\<rparr>
          in andThen (ASSERT (next_send_valid_index s1 < McastBufferSize)
                        ''Mcast socket buffer filled up and sendAndRecv() not called.'')
               (\<lambda>_. Inr s1))"

text \<open>
  What the operating system does in one call of \<^verbatim>\<open>sendAndRecv\<close>: the datagram waiting to
  be received, if any, and the value returned by \<^verbatim>\<open>::send\<close>. A receive with nothing
  waiting returns \<open>-1\<close>; otherwise it copies at most the number of bytes asked for and
  returns their number.
\<close>

record os_io =
  recv_data :: "byte list option"
  send_result :: int

definition os_recv :: "os_io \<Rightarrow> nat \<Rightarrow> int \<times> byte list" where
  "os_recv io len =
     (case recv_data io of
        None \<Rightarrow> (- 1, [])
      | Some bs \<Rightarrow> (int (length (take len bs)), take len bs))"

text \<open>
  The result of \<^verbatim>\<open>sendAndRecv\<close>: the socket, the returned flag, and the bytes handed to
  \<^verbatim>\<open>::send\<close> when it was called. Calling an empty \<^verbatim>\<open>std::function\<close> throws, which in a
  \<^verbatim>\<open>noexcept\<close> function terminates the process.
\<close>

definition McastSocket_sendAndRecv ::
  "(McastSocket \<Rightarrow> fault + McastSocket) option \<Rightarrow> os_io \<Rightarrow> McastSocket \<Rightarrow>
   fault + (McastSocket \<times> bool \<times> byte list option)" where
  "McastSocket_sendAndRecv recv_callback io s =
     (let (n_rcv, bytes) =
            os_recv io (size_t_sub McastBufferSize (next_rcv_valid_index s))
      in andThen
           (if n_rcv > 0 then
              andThen (memcpy_into (inbound_data s) (next_rcv_valid_index s) bytes)
                (\<lambda>buf.
                   let s1 = s\<lparr>inbound_data := buf,
                              next_rcv_valid_index := size_t (next_rcv_valid_index s + nat n_rcv)\<rparr>
                   in case recv_callback of
                        None \<Rightarrow> Inl (Terminate ''bad_function_call'')
                      | Some f \<Rightarrow> f s1)
            else Inr s)
           (\<lambda>s2.
              let sent = (if next_send_valid_index s2 > 0
                          then Some (take (next_send_valid_index s2) (outbound_data s2))
                          else None)
              in Inr (s2\<lparr>next_send_valid_index := 0\<rparr>, n_rcv > 0, sent)))"

section \<open>The reactor (\<^verbatim>\<open>TCPServer\<close>)\<close>

subsection \<open>The stream socket\<close>

text \<open>The fields of \<^verbatim>\<open>TCPSocket\<close> (tcp\_socket.h) that its I/O step uses.\<close>

definition TCPBufferSize :: nat where
  "TCPBufferSize = 64 * 1024 * 1024"

record TCPSocket =
  tcp_socket_fd :: int
  tcp_outbound_data :: "byte list"
  tcp_next_send_valid_index :: nat
  tcp_inbound_data :: "byte list"
  tcp_next_rcv_valid_index :: nat

definition TCPSocket_new :: TCPSocket where
  "TCPSocket_new =
     \<lparr>tcp_socket_fd = - 1, tcp_outbound_data = replicate TCPBufferSize 0,
      tcp_next_send_valid_index = 0, tcp_inbound_data = replicate TCPBufferSize 0,
      tcp_next_rcv_valid_index = 0\<rparr>"

text \<open>
  Modelled from the spec: \<^verbatim>\<open>TCPSocket::sendAndRecv\<close>, which the header declares and whose
  definition (tcp\_socket.cpp) is not among the sources. The spec (4.4) describes one I/O
  step for both kinds of socket: a non-blocking receive past the inbound high-water mark,
  which on arrival of bytes advances the mark and calls the receive callback; one send
  attempt when bytes are pending; the outbound mark reset to zero; the returned flag says
  whether bytes were received.
\<close>

definition TCPSocket_sendAndRecv ::
  "(TCPSocket \<Rightarrow> fault + TCPSocket) option \<Rightarrow> os_io \<Rightarrow> TCPSocket \<Rightarrow>
   fault + (TCPSocket \<times> bool \<times> byte list option)" where
  "TCPSocket_sendAndRecv recv_callback io s =
     (let (n_rcv, bytes) =
            os_recv io (size_t_sub TCPBufferSize (tcp_next_rcv_valid_index s))
      in andThen
           (if n_rcv > 0 then
              andThen (memcpy_into (tcp_inbound_data s) (tcp_next_rcv_valid_index s) bytes)
                (\<lambda>buf.
                   let s1 = s\<lparr>tcp_inbound_data := buf,
                              tcp_next_rcv_valid_index :=
                                size_t (tcp_next_rcv_valid_index s + nat n_rcv)\<rparr>
                   in case recv_callback of
                        None \<Rightarrow> Inl (Terminate ''bad_function_call'')
                      | Some f \<Rightarrow> f s1)
            else Inr s)
           (\<lambda>s2.
              let sent = (if tcp_next_send_valid_index s2 > 0
                          then Some (take (tcp_next_send_valid_index s2) (tcp_outbound_data s2))
                          else None)
              in Inr (s2\<lparr>tcp_next_send_valid_index := 0\<rparr>, n_rcv > 0, sent)))"

subsection \<open>The per-tick step of the reactor\<close>

text \<open>
  The reactor holds pointers to sockets in its two vectors; a pointer is a number. What
  \<^verbatim>\<open>socket->sendAndRecv()\<close> does is an argument \<open>sar\<close> of the model: given the pointer it
  changes the world \<open>'w\<close> (the sockets, the operating system, the application) and returns
  the flag, or ends the process. The batch-finished callback is an argument as well,
  \<open>None\<close> when none was registered. The result carries the trace of the calls made, in
  order.
\<close>

record TCPServer =
  kqueue_fd :: int
  listener_socket :: nat
  receive_sockets :: "nat list"
  send_sockets :: "nat list"

datatype tick_event = Socket_sendAndRecv nat bool | Recv_finished_callback

text \<open>
  The first \<^verbatim>\<open>for_each\<close>: \<^verbatim>\<open>recv |= socket->sendAndRecv()\<close> for every socket (the source
  has a blank inside the operator).
\<close>

fun recv_pass ::
  "(nat \<Rightarrow> 'w \<Rightarrow> fault + ('w \<times> bool)) \<Rightarrow> nat list \<Rightarrow> bool \<Rightarrow> 'w \<Rightarrow>
   fault + ('w \<times> bool \<times> tick_event list)" where
  "recv_pass sar [] recv w = Inr (w, recv, [])"
| "recv_pass sar (socket # sockets) recv w =
     (case sar socket w of
        Inl e \<Rightarrow> Inl e
      | Inr (w', r) \<Rightarrow>
          (case recv_pass sar sockets (recv \<or> r) w' of
             Inl e \<Rightarrow> Inl e
           | Inr (w'', recv', tr) \<Rightarrow> Inr (w'', recv', Socket_sendAndRecv socket r # tr)))"

text \<open>The second \<^verbatim>\<open>for_each\<close>, which ignores the flags.\<close>

fun send_pass ::
  "(nat \<Rightarrow> 'w \<Rightarrow> fault + ('w \<times> bool)) \<Rightarrow> nat list \<Rightarrow> 'w \<Rightarrow>
   fault + ('w \<times> tick_event list)" where
  "send_pass sar [] w = Inr (w, [])"
| "send_pass sar (socket # sockets) w =
     (case sar socket w of
        Inl e \<Rightarrow> Inl e
      | Inr (w', r) \<Rightarrow>
          (case send_pass sar sockets w' of
             Inl e \<Rightarrow> Inl e
           | Inr (w'', tr) \<Rightarrow> Inr (w'', Socket_sendAndRecv socket r # tr)))"

definition TCPServer_sendAndRecv ::
  "(nat \<Rightarrow> 'w \<Rightarrow> fault + ('w \<times> bool)) \<Rightarrow> ('w \<Rightarrow> fault + 'w) option \<Rightarrow> TCPServer \<Rightarrow> 'w \<Rightarrow>
   fault + ('w \<times> tick_event list)" where
  "TCPServer_sendAndRecv sar recv_finished_callback srv w =
     (case recv_pass sar (receive_sockets srv) False w of
        Inl e \<Rightarrow> Inl e
      | Inr (w1, recv, tr1) \<Rightarrow>
          (case (if recv then
                   (case recv_finished_callback of
                      None \<Rightarrow> Inl (Terminate ''bad_function_call'')
                    | Some f \<Rightarrow> andThen (f w1) (\<lambda>w2. Inr (w2, [Recv_finished_callback])))
                 else Inr (w1, [])) of
             Inl e \<Rightarrow> Inl e
           | Inr (w2, tr2) \<Rightarrow>
               (case send_pass sar (send_sockets srv) w2 of
                  Inl e \<Rightarrow> Inl e
                | Inr (w3, tr3) \<Rightarrow> Inr (w3, tr1 @ tr2 @ tr3))))"

text \<open>
  A world for the reactor: the sockets behind the pointers and, for each, what the
  operating system holds for its next I/O step. A step consumes what was waiting.
\<close>

record tcp_world =
  socks :: "nat \<Rightarrow> TCPSocket option"
  os :: "nat \<Rightarrow> os_io"

definition tcp_sar ::
  "(TCPSocket \<Rightarrow> fault + TCPSocket) option \<Rightarrow> nat \<Rightarrow> tcp_world \<Rightarrow> fault + (tcp_world \<times> bool)"
  where
  "tcp_sar recv_callback p w =
     (case socks w p of
        None \<Rightarrow> Inl (Undefined ''dangling socket pointer'')
      | Some s \<Rightarrow>
          (case TCPSocket_sendAndRecv recv_callback (os w p) s of
             Inl e \<Rightarrow> Inl e
           | Inr (s', r, sent) \<Rightarrow>
               Inr (w\<lparr>socks := (socks w)(p := Some s'),
                       os := (os w)(p := \<lparr>recv_data = None, send_result = 0\<rparr>)\<rparr>, r)))"

text \<open>
  What the claim about a tick speaks of, in its own words: the calls of \<^verbatim>\<open>sendAndRecv\<close>
  made on the sockets \<open>ps\<close>, one after the other. \<open>ws\<close> lists the worlds, the first before
  the first call and the last after the last one; the \<open>i\<close>-th call is made on the \<open>i\<close>-th
  socket in the \<open>i\<close>-th world, returns, leaves the next world and reports the \<open>i\<close>-th
  flag of \<open>rs\<close>.
\<close>

definition calls_made ::
  "(nat \<Rightarrow> 'w \<Rightarrow> fault + ('w \<times> bool)) \<Rightarrow> nat list \<Rightarrow> 'w list \<Rightarrow> bool list \<Rightarrow> bool" where
  "calls_made sar ps ws rs =
     (length ws = Suc (length ps) \<and> length rs = length ps \<and>
      (\<forall>i < length ps. sar (ps ! i) (ws ! i) = Inr (ws ! Suc i, rs ! i)))"

section \<open>Socket setup (\<^verbatim>\<open>createSocket\<close>, \<^verbatim>\<open>TCPServer::listen\<close>)\<close>

text \<open>
  Setting up a socket is a sequence of calls to the operating system. The model returns
  the calls made, in order, next to the result; what each call returns is given by the
  environment. \<^verbatim>\<open>setNonBlocking\<close>, \<^verbatim>\<open>disableNagle\<close> and \<^verbatim>\<open>setSOTimestamp\<close> are the
  helpers of the source, each one call that succeeds or fails. \<^verbatim>\<open>Call_bind\<close> is the call
  that binds a descriptor to an address. The call of \<^verbatim>\<open>logger.log\<close> is left out: it passes
  five arguments for five placeholders.
\<close>

record SocketCfg =
  cfg_ip :: string
  cfg_iface :: string
  cfg_port :: int
  is_udp :: bool
  is_listening :: bool
  needs_so_timestamp :: bool

definition MaxTCPServerBacklog :: nat where
  "MaxTCPServerBacklog = 1024"

datatype sys_call =
    Call_getaddrinfo string string bool
  | Call_socket bool
  | Call_setNonBlocking int
  | Call_disableNagle int
  | Call_connect int string
  | Call_setsockopt_REUSEADDR int
  | Call_bind int string
  | Call_listen int nat
  | Call_setSOTimestamp int
  | Call_kqueue
  | Call_kevent_add_read int int

record sys_env =
  getIfaceIP_result :: "string \<Rightarrow> string"
  getaddrinfo_rc :: int
  getaddrinfo_list :: "string list"
  socket_result :: int
  setNonBlocking_result :: bool
  disableNagle_result :: bool
  connect_result :: int
  setsockopt_REUSEADDR_result :: int
  listen_result :: "nat \<Rightarrow> int"
  setSOTimestamp_result :: bool
  kqueue_result :: int
  kevent_result :: int

type_synonym 'a traced = "sys_call list \<times> (fault + 'a)"

definition call :: "sys_call \<Rightarrow> 'a \<Rightarrow> 'a traced" where
  "call c result = ([c], Inr result)"

definition check :: "bool \<Rightarrow> string \<Rightarrow> unit traced" where
  "check cond msg = ([], ASSERT cond msg)"

definition next_do :: "'a traced \<Rightarrow> ('a \<Rightarrow> 'b traced) \<Rightarrow> 'b traced" where
  "next_do m f =
     (case m of
        (tr, Inl e) \<Rightarrow> (tr, Inl e)
      | (tr, Inr x) \<Rightarrow> (case f x of (tr', r) \<Rightarrow> (tr @ tr', r)))"

definition when_do :: "bool \<Rightarrow> unit traced \<Rightarrow> unit traced" where
  "when_do b m = (if b then m else ([], Inr ()))"

text \<open>
  \<^verbatim>\<open>createSocket\<close>. The body of the loop over the resolved addresses ends with
  \<^verbatim>\<open>return socket_fd\<close>, so only the first address is used; with no address the function
  ends without returning a value. For a listening configuration the source builds the
  address \<^verbatim>\<open>addr\<close> and then calls \<^verbatim>\<open>listen\<close>; a stream socket is put to \<^verbatim>\<open>listen\<close> a
  second time. The connection check compares the result of \<^verbatim>\<open>connect\<close> with 1.
\<close>

definition createSocket :: "sys_env \<Rightarrow> SocketCfg \<Rightarrow> int traced" where
  "createSocket env socket_cfg =
     (let ip = (if cfg_ip socket_cfg = [] then getIfaceIP_result env (cfg_iface socket_cfg)
                else cfg_ip socket_cfg)
      in
      next_do (call (Call_getaddrinfo ip (show_int (cfg_port socket_cfg))
                       (is_listening socket_cfg)) (getaddrinfo_rc env)) (\<lambda>rc.
      next_do (check (rc = 0) ''getaddrinfo() failed. error:'') (\<lambda>_.
      case getaddrinfo_list env of
        [] \<Rightarrow> ([], Inl (Undefined ''end of a non-void function without a return''))
      | rp # rest \<Rightarrow>
          next_do (call (Call_socket (is_udp socket_cfg)) (socket_result env)) (\<lambda>socket_fd.
          next_do (check (socket_fd \<noteq> - 1) ''socket() failed. errno:'') (\<lambda>_.
          next_do (call (Call_setNonBlocking socket_fd) (setNonBlocking_result env)) (\<lambda>ok.
          next_do (check ok ''setNonBlocking() failed. errno:'') (\<lambda>_.
          next_do (when_do (\<not> is_udp socket_cfg)
                     (next_do (call (Call_disableNagle socket_fd) (disableNagle_result env))
                        (\<lambda>ok. check ok ''disableNagle() failed. errno:''))) (\<lambda>_.
          next_do (when_do (\<not> is_listening socket_cfg)
                     (next_do (call (Call_connect socket_fd rp) (connect_result env))
                        (\<lambda>r. check (r \<noteq> 1) ''connect() failed. errno:''))) (\<lambda>_.
          next_do (when_do (is_listening socket_cfg)
                     (next_do (call (Call_setsockopt_REUSEADDR socket_fd)
                                 (setsockopt_REUSEADDR_result env))
                        (\<lambda>r. check (r = 0) ''setsockopt() SO_REUSEADDR failed. errno:''))) (\<lambda>_.
          next_do (when_do (is_listening socket_cfg)
                     (next_do (call (Call_listen socket_fd MaxTCPServerBacklog)
                                 (listen_result env 0))
                        (\<lambda>r. check (r = 0) ''listen() failed. errno:''))) (\<lambda>_.
          next_do (when_do (\<not> is_udp socket_cfg \<and> is_listening socket_cfg)
                     (next_do (call (Call_listen socket_fd MaxTCPServerBacklog)
                                 (listen_result env 1))
                        (\<lambda>r. check (r = 0) ''listen() failed. errno:''))) (\<lambda>_.
          next_do (when_do (needs_so_timestamp socket_cfg)
                     (next_do (call (Call_setSOTimestamp socket_fd) (setSOTimestamp_result env))
                        (\<lambda>ok. check ok ''setSOTimestamp() failed. errno:''))) (\<lambda>_.
          ([], Inr socket_fd))))))))))))))"

text \<open>\<^verbatim>\<open>McastSocket::init\<close>: a datagram configuration without receive timestamps.\<close>

definition McastSocket_init ::
  "sys_env \<Rightarrow> McastSocket \<Rightarrow> string \<Rightarrow> string \<Rightarrow> int \<Rightarrow> bool \<Rightarrow> (McastSocket \<times> int) traced" where
  "McastSocket_init env s ip iface port listening =
     next_do (createSocket env
                \<lparr>cfg_ip = ip, cfg_iface = iface, cfg_port = port, is_udp = True,
                 is_listening = listening, needs_so_timestamp = False\<rparr>)
       (\<lambda>fd. ([], Inr (s\<lparr>socket_fd := fd\<rparr>, fd)))"

text \<open>
  Modelled from the spec: \<^verbatim>\<open>TCPSocket::connect\<close>, which the header declares and whose
  definition (tcp\_socket.cpp) is not among the sources. By the spec (4.4) the setup of a
  socket is the one sequence that \<^verbatim>\<open>createSocket\<close> implements, here for a stream socket;
  whether receive timestamps are requested is the argument \<open>ts\<close>.
\<close>

definition TCPSocket_connect ::
  "bool \<Rightarrow> sys_env \<Rightarrow> TCPSocket \<Rightarrow> string \<Rightarrow> string \<Rightarrow> int \<Rightarrow> bool \<Rightarrow> (TCPSocket \<times> int) traced"
  where
  "TCPSocket_connect ts env s ip iface port listening =
     next_do (createSocket env
                \<lparr>cfg_ip = ip, cfg_iface = iface, cfg_port = port, is_udp = False,
                 is_listening = listening, needs_so_timestamp = ts\<rparr>)
       (\<lambda>fd. ([], Inr (s\<lparr>tcp_socket_fd := fd\<rparr>, fd)))"

text \<open>
  \<^verbatim>\<open>TCPServer::addToEpollList\<close> registers the socket for read-readiness and returns
  whether \<^verbatim>\<open>kevent\<close> returned something other than 1; \<^verbatim>\<open>TCPServer::listen\<close> creates the
  event queue, sets up the listener and registers it. The listener is passed next to the
  server, which holds it by value in the source.
\<close>

definition addToEpollList :: "sys_env \<Rightarrow> TCPServer \<Rightarrow> TCPSocket \<Rightarrow> bool traced" where
  "addToEpollList env srv socket =
     next_do (call (Call_kevent_add_read (kqueue_fd srv) (tcp_socket_fd socket))
                (kevent_result env))
       (\<lambda>r. ([], Inr (r \<noteq> 1)))"

definition TCPServer_listen ::
  "bool \<Rightarrow> sys_env \<Rightarrow> TCPServer \<Rightarrow> TCPSocket \<Rightarrow> string \<Rightarrow> int \<Rightarrow> (TCPServer \<times> TCPSocket) traced"
  where
  "TCPServer_listen ts env srv listener iface port =
     next_do (call Call_kqueue (kqueue_result env)) (\<lambda>kq.
     let srv1 = srv\<lparr>kqueue_fd := kq\<rparr> in
     next_do (check (kqueue_fd srv1 \<ge> 0) ''epoll_create() failed error:'') (\<lambda>_.
     next_do (TCPSocket_connect ts env listener [] iface port True) (\<lambda>(listener1, fd).
     next_do (check (fd \<ge> 0) ''Listener socket failed to connect. iface:'') (\<lambda>_.
     next_do (addToEpollList env srv1 listener1) (\<lambda>ok.
     next_do (check ok ''epoll_ctl() failed. error:'') (\<lambda>_.
     ([], Inr (srv1, listener1))))))))"

definition is_bind :: "sys_call \<Rightarrow> bool" where
  "is_bind c = (case c of Call_bind fd addr \<Rightarrow> True | _ \<Rightarrow> False)"

text \<open>An environment in which every call succeeds.\<close>

definition all_succeed :: sys_env where
  "all_succeed =
     \<lparr>getIfaceIP_result = (\<lambda>iface. ''127.0.0.1''), getaddrinfo_rc = 0,
      getaddrinfo_list = [''127.0.0.1:8080''], socket_result = 7,
      setNonBlocking_result = True, disableNagle_result = True, connect_result = 0,
      setsockopt_REUSEADDR_result = 0, listen_result = (\<lambda>k. 0),
      setSOTimestamp_result = True, kqueue_result = 3, kevent_result = 0\<rparr>"

section \<open>Results\<close>

subsection \<open>Ring buffer: the bound on the count\<close>


lemma size_t_small: "n < 18446744073709551616 \<Longrightarrow> size_t n = n"
  by (simp add: size_t_def)

lemma size_t_sub_small:
  assumes "b \<le> a" and "a < 18446744073709551616"
  shows "size_t_sub a b = a - b"
proof -
  have p: "(2::nat) ^ 64 = 18446744073709551616" by simp
  from assms(1) have "a + 18446744073709551616 - b = (a - b) + 18446744073709551616" by arith
  then have "size_t_sub a b = (a - b) mod 18446744073709551616"
    unfolding size_t_sub_def p by (simp only: mod_add_self2)
  also have "\<dots> = a - b" using assms(2) by (intro mod_less) arith
  finally show ?thesis .
qed

lemma replicate_numeral: "replicate (numeral k) x = x # replicate (pred_numeral k) x"
  by (simp add: numeral_eq_Suc)





subsection \<open>Object pool: allocation\<close>

lemma loop_result:
  assumes "initial < length (pool_store p)" and "next_free_index p < length (pool_store p)"
  shows "((\<exists>j \<in> unvisited initial (next_free_index p) (length (pool_store p)).
             is_free (pool_store p ! j)) \<longrightarrow>
          (\<exists>k \<in> unvisited initial (next_free_index p) (length (pool_store p)).
             updateNextFreeIndex_loop initial p = Inr (p\<lparr>next_free_index := k\<rparr>) \<and>
             is_free (pool_store p ! k))) \<and>
         ((\<forall>j \<in> unvisited initial (next_free_index p) (length (pool_store p)).
             \<not> is_free (pool_store p ! j)) \<longrightarrow>
          updateNextFreeIndex_loop initial p = Inl (ASSERT_exit ''Memory Pool out of space.''))"
  using assms
proof (induction d \<equiv> "card (unvisited initial (next_free_index p) (length (pool_store p)))"
    arbitrary: p rule: less_induct)
  case less
  let ?n = "length (pool_store p)"
  let ?cur = "next_free_index p"
  let ?V = "unvisited initial ?cur ?n"
  have cur_in: "?cur \<in> ?V" using less.prems by (auto simp: unvisited_def)
  show ?case
  proof (cases "is_free (pool_store p ! ?cur)")
    case True
    have "updateNextFreeIndex_loop initial p = Inr p"
      by (subst updateNextFreeIndex_loop.simps) (use True less.prems in simp)
    with True cur_in show ?thesis by (auto intro!: bexI [of _ ?cur])
  next
    case False
    define nxt where "nxt = (if ?cur + 1 = ?n then 0 else ?cur + 1)"
    have unfold: "updateNextFreeIndex_loop initial p =
        (if initial = nxt then Inl (ASSERT_exit ''Memory Pool out of space.'')
         else updateNextFreeIndex_loop initial (p\<lparr>next_free_index := nxt\<rparr>))"
      by (subst updateNextFreeIndex_loop.simps)
        (use False less.prems in \<open>simp add: nxt_def Let_def del: updateNextFreeIndex_loop.simps\<close>)
    show ?thesis
    proof (cases "initial = nxt")
      case True
      then have "?V = {?cur}"
        using less.prems by (auto simp: unvisited_def nxt_def split: if_splits)
      with unfold True False show ?thesis by simp
    next
      case ne: False
      let ?p' = "p\<lparr>next_free_index := nxt\<rparr>"
      have nxt_lt: "nxt < ?n" using less.prems by (auto simp: nxt_def)
      have V': "unvisited initial nxt ?n = ?V - {?cur}"
        using less.prems ne by (auto simp: unvisited_def nxt_def split: if_splits)
      have fin: "finite ?V" by (simp add: unvisited_def)
      have "card (unvisited initial (next_free_index ?p') (length (pool_store ?p'))) < card ?V"
        using card_Diff1_less [OF fin cur_in] by (simp add: V')
      from less.hyps [OF this] less.prems(1) nxt_lt
      have IH: "((\<exists>j \<in> ?V - {?cur}. is_free (pool_store p ! j)) \<longrightarrow>
          (\<exists>k \<in> ?V - {?cur}.
             updateNextFreeIndex_loop initial ?p' = Inr (p\<lparr>next_free_index := k\<rparr>) \<and>
             is_free (pool_store p ! k))) \<and>
         ((\<forall>j \<in> ?V - {?cur}. \<not> is_free (pool_store p ! j)) \<longrightarrow>
          updateNextFreeIndex_loop initial ?p' = Inl (ASSERT_exit ''Memory Pool out of space.''))"
        by (simp add: V')
      from IH unfold ne False show ?thesis by (auto simp del: updateNextFreeIndex_loop.simps)
    qed
  qed
qed


lemma unvisited_start: "i < n \<Longrightarrow> unvisited i i n = {0..<n}"
  by (auto simp: unvisited_def)

lemma allocate_result:
  assumes "next_free_index p < length (pool_store p)"
    and "is_free (pool_store p ! next_free_index p)"
  shows "if \<exists>j < length (pool_store p). j \<noteq> next_free_index p \<and> is_free (pool_store p ! j)
         then \<exists>k < length (pool_store p). k \<noteq> next_free_index p \<and> is_free (pool_store p ! k) \<and>
                allocate p v =
                  Inr (p\<lparr>pool_store :=
                           (pool_store p)[next_free_index p := \<lparr>object = v, is_free = False\<rparr>],
                         next_free_index := k\<rparr>, next_free_index p)
         else allocate p v = Inl (ASSERT_exit ''Memory Pool out of space.'')"
proof -
  let ?i = "next_free_index p"
  let ?n = "length (pool_store p)"
  let ?st = "(pool_store p)[?i := \<lparr>object = v, is_free = False\<rparr>]"
  let ?p1 = "p\<lparr>pool_store := ?st\<rparr>"
  have al: "allocate p v =
      andThen (updateNextFreeIndex_loop ?i ?p1) (\<lambda>p2. Inr (p2, ?i))"
    using assms
    by (simp add: allocate_def ASSERT_def andThen_def Let_def updateNextFreeIndex_def
        del: updateNextFreeIndex_loop.simps)
  have V: "unvisited ?i (next_free_index ?p1) (length (pool_store ?p1)) = {0..<?n}"
    using assms(1) by (simp add: unvisited_start)
  have fr: "is_free (?st ! j) \<longleftrightarrow> j \<noteq> ?i \<and> is_free (pool_store p ! j)" if "j < ?n" for j
    using that by (cases "j = ?i") simp_all
  have l1: "?i < length (pool_store ?p1)" using assms(1) by simp
  have l2: "next_free_index ?p1 < length (pool_store ?p1)" using assms(1) by simp
  note lr = loop_result [OF l1 l2, unfolded V]
  show ?thesis
  proof (cases "\<exists>j < ?n. j \<noteq> ?i \<and> is_free (pool_store p ! j)")
    case True
    then obtain j where "j < ?n" "j \<noteq> ?i" "is_free (pool_store p ! j)" by blast
    with fr [of j] have "\<exists>j \<in> {0..<?n}. is_free (pool_store ?p1 ! j)"
      by (intro bexI [of _ j]) simp_all
    from lr [THEN conjunct1, THEN mp, OF this] obtain k where k: "k \<in> {0..<?n}"
      "updateNextFreeIndex_loop ?i ?p1 = Inr (?p1\<lparr>next_free_index := k\<rparr>)"
      "is_free (pool_store ?p1 ! k)"
      by blast
    from k(1) have kn: "k < ?n" by simp
    from k(3) fr [OF kn] have kf: "k \<noteq> ?i" "is_free (pool_store p ! k)" by simp_all
    have "allocate p v = Inr (?p1\<lparr>next_free_index := k\<rparr>, ?i)"
      unfolding al k(2) by (simp add: andThen_def)
    with kn kf have "\<exists>k < ?n. k \<noteq> ?i \<and> is_free (pool_store p ! k) \<and>
        allocate p v = Inr (p\<lparr>pool_store := ?st, next_free_index := k\<rparr>, ?i)"
      by (intro exI [of _ k]) simp
    with True show ?thesis by (simp only: if_True)
  next
    case False
    have "\<forall>j \<in> {0..<?n}. \<not> is_free (pool_store ?p1 ! j)"
    proof
      fix j assume "j \<in> {0..<?n}"
      then have "j < ?n" by simp
      from fr [OF this] False this show "\<not> is_free (pool_store ?p1 ! j)" by auto
    qed
    from lr [THEN conjunct2, THEN mp, OF this]
    have "allocate p v = Inl (ASSERT_exit ''Memory Pool out of space.'')"
      unfolding al by (simp add: andThen_def del: updateNextFreeIndex_loop.simps)
    with False show ?thesis by (simp only: if_False)
  qed
qed

lemma pool_inv_new: "0 < n \<Longrightarrow> pool_inv (MemPool_new n d)"
  by (simp add: pool_inv_def MemPool_new_def)

lemma pool_inv_allocate:
  assumes "pool_inv p" and "allocate p v = Inr (p', h)"
  shows "pool_inv p'"
proof -
  from assms(1) have a: "next_free_index p < length (pool_store p)"
    "is_free (pool_store p ! next_free_index p)"
    by (simp_all add: pool_inv_def)
  note r = allocate_result [OF a, of v]
  show ?thesis
  proof (cases "\<exists>j < length (pool_store p). j \<noteq> next_free_index p \<and> is_free (pool_store p ! j)")
    case True
    with r obtain k where "k < length (pool_store p)" "k \<noteq> next_free_index p"
      "is_free (pool_store p ! k)"
      "allocate p v =
         Inr (p\<lparr>pool_store :=
                  (pool_store p)[next_free_index p := \<lparr>object = v, is_free = False\<rparr>],
                next_free_index := k\<rparr>, next_free_index p)"
      by (simp only: if_True) blast
    with assms(2) show ?thesis by (auto simp: pool_inv_def)
  next
    case False
    with r assms(2) show ?thesis by (simp only: if_False) simp
  qed
qed

lemma pool_inv_deallocate:
  assumes "pool_inv p" and "deallocate p i = Inr p'"
  shows "pool_inv p'"
proof -
  from assms(2) have i: "0 \<le> i" "nat i < length (pool_store p)"
    and p': "p' = p\<lparr>pool_store := (pool_store p)[nat i := (pool_store p ! nat i)\<lparr>is_free := True\<rparr>]\<rparr>"
    by (auto simp: deallocate_def andThen_def ASSERT_def split: if_splits)
  from assms(1) i show ?thesis
    by (cases "nat i = next_free_index p") (simp_all add: pool_inv_def p')
qed

text \<open>
  C3 (as the code has it). In a pool whose search index stands at a free block, as it
  does after construction and after every \<^verbatim>\<open>allocate\<close> and \<^verbatim>\<open>deallocate\<close> that
  returns, \<^verbatim>\<open>allocate\<close> constructs the value in that block and marks it used. If
  another block is free, the call returns the handle of the block it filled, changes no
  other block and leaves the search index at a free block. If the block was the last free
  one, the search that follows finds none and the call ends the process with
  \<^verbatim>\<open>Memory Pool out of space.\<close> instead of returning the handle.
\<close>

theorem allocate_fills_then_searches:
  assumes "pool_inv p"
  shows "if \<exists>j < length (pool_store p). j \<noteq> next_free_index p \<and> is_free (pool_store p ! j)
         then \<exists>k < length (pool_store p). k \<noteq> next_free_index p \<and> is_free (pool_store p ! k) \<and>
                allocate p v =
                  Inr (p\<lparr>pool_store :=
                           (pool_store p)[next_free_index p := \<lparr>object = v, is_free = False\<rparr>],
                         next_free_index := k\<rparr>, next_free_index p)
         else allocate p v = Inl (ASSERT_exit ''Memory Pool out of space.'')"
  using assms unfolding pool_inv_def by (intro allocate_result) simp_all

theorem allocate_fills_then_searches_witness:
  "pool_inv \<lparr>pool_store = [\<lparr>object = 0::nat, is_free = True\<rparr>, \<lparr>object = 0, is_free = True\<rparr>,
                           \<lparr>object = 0, is_free = True\<rparr>],
             next_free_index = 0\<rparr> \<and>
   (\<exists>k. k \<noteq> 0 \<and>
      allocate \<lparr>pool_store = [\<lparr>object = 0::nat, is_free = True\<rparr>, \<lparr>object = 0, is_free = True\<rparr>,
                               \<lparr>object = 0, is_free = True\<rparr>],
                 next_free_index = 0\<rparr> 7 =
        Inr (\<lparr>pool_store = [\<lparr>object = 7, is_free = False\<rparr>, \<lparr>object = 0, is_free = True\<rparr>,
                            \<lparr>object = 0, is_free = True\<rparr>],
              next_free_index = k\<rparr>, 0)) \<and>
   allocate \<lparr>pool_store = [\<lparr>object = 0::nat, is_free = True\<rparr>], next_free_index = 0\<rparr> 7 =
     Inl (ASSERT_exit ''Memory Pool out of space.'')"
proof -
  let ?p3 = "\<lparr>pool_store = [\<lparr>object = 0::nat, is_free = True\<rparr>, \<lparr>object = 0, is_free = True\<rparr>,
                           \<lparr>object = 0, is_free = True\<rparr>],
             next_free_index = 0\<rparr>"
  let ?p1 = "\<lparr>pool_store = [\<lparr>object = 0::nat, is_free = True\<rparr>], next_free_index = 0\<rparr>"
  have a: "pool_inv ?p3" by (simp add: pool_inv_def)
  have b: "pool_inv ?p1" by (simp add: pool_inv_def)
  have c: "\<exists>j < length (pool_store ?p3). j \<noteq> next_free_index ?p3 \<and> is_free (pool_store ?p3 ! j)"
    by (rule exI [of _ 1]) simp
  have d: "\<not> (\<exists>j < length (pool_store ?p1). j \<noteq> next_free_index ?p1 \<and> is_free (pool_store ?p1 ! j))"
    by simp
  from allocate_fills_then_searches [OF a, of 7] c
  have "\<exists>k < length (pool_store ?p3). k \<noteq> next_free_index ?p3 \<and> is_free (pool_store ?p3 ! k) \<and>
          allocate ?p3 7 =
            Inr (?p3\<lparr>pool_store := (pool_store ?p3)[next_free_index ?p3 := \<lparr>object = 7, is_free = False\<rparr>],
                     next_free_index := k\<rparr>, next_free_index ?p3)"
    by (simp only: if_True)
  then obtain k where "k \<noteq> next_free_index ?p3"
    "allocate ?p3 7 =
       Inr (?p3\<lparr>pool_store := (pool_store ?p3)[next_free_index ?p3 := \<lparr>object = 7, is_free = False\<rparr>],
                next_free_index := k\<rparr>, next_free_index ?p3)"
    by blast
  then have "k \<noteq> 0 \<and> allocate ?p3 7 =
        Inr (\<lparr>pool_store = [\<lparr>object = 7, is_free = False\<rparr>, \<lparr>object = 0, is_free = True\<rparr>,
                            \<lparr>object = 0, is_free = True\<rparr>],
              next_free_index = k\<rparr>, 0)"
    by (simp del: updateNextFreeIndex_loop.simps)
  moreover from allocate_fills_then_searches [OF b, of 7] d
  have "allocate ?p1 7 = Inl (ASSERT_exit ''Memory Pool out of space.'')"
    by (simp only: if_False)
  ultimately show ?thesis using a by blast
qed

text \<open>
  C3 (as stated) fails: the second \<^verbatim>\<open>allocate\<close> on a pool of capacity 2 is made while
  block 1 is free, and it ends the process.
\<close>

theorem allocate_exits_with_free_slot_counterexample:
  "allocate (MemPool_new 2 (0::nat)) 7 =
     Inr (\<lparr>pool_store = [\<lparr>object = 7, is_free = False\<rparr>, \<lparr>object = 0, is_free = True\<rparr>],
           next_free_index = 1\<rparr>, 0) \<and>
   is_free (pool_store \<lparr>pool_store = [\<lparr>object = 7, is_free = False\<rparr>,
                                       \<lparr>object = 0::nat, is_free = True\<rparr>],
                         next_free_index = 1\<rparr> ! 1) \<and>
   allocate \<lparr>pool_store = [\<lparr>object = 7, is_free = False\<rparr>, \<lparr>object = 0::nat, is_free = True\<rparr>],
             next_free_index = 1\<rparr> 8 = Inl (ASSERT_exit ''Memory Pool out of space.'')"
  by (simp add: allocate_def MemPool_new_def updateNextFreeIndex_def andThen_def ASSERT_def
      replicate_numeral)

subsection \<open>Ring buffer: the queue as a sequence\<close>

lemma mod_add_neq:
  fixes n :: nat
  assumes "j < c" and "c < n"
  shows "(r + j) mod n \<noteq> (r + c) mod n"
proof
  assume "(r + j) mod n = (r + c) mod n"
  then have "(r + c) mod n = (r + j) mod n" by simp
  moreover have "r + j \<le> r + c" using assms by simp
  ultimately have "n dvd (r + c) - (r + j)" by (simp add: mod_eq_dvd_iff_nat)
  then have "n dvd c - j" by simp
  moreover have "0 < c - j" "c - j < n" using assms by simp_all
  ultimately show False by (simp add: nat_dvd_not_less)
qed

lemma queue_ok_new:
  "0 < n \<Longrightarrow> n < 18446744073709551616 \<Longrightarrow>
   queue_ok (LFQueue_new n d) \<and> pending (LFQueue_new n d) = []"
  by (simp add: queue_ok_def pending_def LFQueue_new_def)

lemma enqueue_pending:
  assumes "queue_ok q" and "num_elements q < length (store q)"
  shows "queue_ok (enqueue q e) \<and> pending (enqueue q e) = pending q @ [e] \<and>
         length (store (enqueue q e)) = length (store q) \<and>
         num_elements (enqueue q e) = Suc (num_elements q)"
proof -
  let ?n = "length (store q)"
  let ?r = "next_read_index q"
  let ?c = "num_elements q"
  from assms have ok: "0 < ?n" "?n < 18446744073709551616" "?r < ?n"
    "next_write_index q = (?r + ?c) mod ?n"
    by (simp_all add: queue_ok_def)
  have w: "next_write_index q < ?n" using ok by simp
  have sc: "size_t (?c + 1) = Suc ?c" using assms(2) ok(2) by (simp add: size_t_small)
  have sw: "size_t (next_write_index q + 1) = Suc (next_write_index q)"
    using w ok(2) by (simp add: size_t_small)
  have wi: "Suc (next_write_index q) mod ?n = (?r + Suc ?c) mod ?n"
    using ok(4) by (simp add: mod_Suc_eq)
  have old: "(store q)[next_write_index q := e] ! ((?r + j) mod ?n) = store q ! ((?r + j) mod ?n)"
    if "j < ?c" for j
    using mod_add_neq [OF that assms(2), of ?r] ok(4) by simp
  have new: "(store q)[next_write_index q := e] ! ((?r + ?c) mod ?n) = e"
    using w ok(4) by simp
  have "pending (enqueue q e) = pending q @ [e]"
    unfolding pending_def enqueue_def using sc old new by simp
  moreover have "queue_ok (enqueue q e)"
    using ok assms(2) sc sw wi by (simp add: queue_ok_def enqueue_def)
  ultimately show ?thesis using sc by (simp add: enqueue_def)
qed

lemma foldl_enqueue_pending:
  "queue_ok q \<Longrightarrow> num_elements q + length es \<le> length (store q) \<Longrightarrow>
   queue_ok (foldl enqueue q es) \<and> pending (foldl enqueue q es) = pending q @ es \<and>
   length (store (foldl enqueue q es)) = length (store q) \<and>
   num_elements (foldl enqueue q es) = num_elements q + length es"
proof (induction es arbitrary: q)
  case Nil
  then show ?case by simp
next
  case (Cons e es)
  from Cons.prems have lt: "num_elements q < length (store q)" by simp
  note step = enqueue_pending [OF Cons.prems(1) lt, of e]
  from step Cons.prems(2)
  have "num_elements (enqueue q e) + length es \<le> length (store (enqueue q e))" by simp
  from Cons.IH [OF _ this] step show ?case by simp
qed

lemma pending_Cons:
  assumes "queue_ok q" and "num_elements q \<noteq> 0"
  shows "pending q = store q ! next_read_index q #
           pending (q\<lparr>next_read_index := size_t (next_read_index q + 1) mod length (store q),
                      num_elements := num_elements q - 1\<rparr>)"
    and "queue_ok (q\<lparr>next_read_index := size_t (next_read_index q + 1) mod length (store q),
                      num_elements := num_elements q - 1\<rparr>)"
proof -
  let ?n = "length (store q)"
  let ?r = "next_read_index q"
  from assms have ok: "0 < ?n" "?n < 18446744073709551616" "?r < ?n" "num_elements q \<le> ?n"
    "next_write_index q = (?r + num_elements q) mod ?n"
    by (simp_all add: queue_ok_def)
  from assms(2) obtain c where c: "num_elements q = Suc c" by (cases "num_elements q") auto
  have sr: "size_t (?r + 1) = Suc ?r" using ok by (simp add: size_t_small)
  have shift: "(Suc ?r mod ?n + j) mod ?n = (?r + Suc j) mod ?n" for j
    by (simp add: mod_add_left_eq)
  have "[0..<Suc c] = 0 # map Suc [0..<c]"
    by (simp add: upt_conv_Cons map_Suc_upt del: upt_Suc)
  then show "pending q = store q ! ?r #
           pending (q\<lparr>next_read_index := size_t (?r + 1) mod ?n,
                      num_elements := num_elements q - 1\<rparr>)"
    unfolding pending_def using c sr shift ok(3) by (simp add: comp_def del: upt_Suc)
  show "queue_ok (q\<lparr>next_read_index := size_t (?r + 1) mod ?n,
                      num_elements := num_elements q - 1\<rparr>)"
    using ok c sr shift [of c] by (simp add: queue_ok_def)
qed

subsection \<open>Ring buffer: first in, first out\<close>

lemma fifo_inv_start:
  assumes "queue_ok q" and "num_elements q + length vals \<le> length (store q)"
  shows "fifo_inv (next_read_index q) (pending q @ vals) (spsc_on q vals)"
proof -
  have len: "length (pending q) = num_elements q" by (simp add: pending_def)
  have st: "store q ! ((next_read_index q + i) mod length (store q)) = (pending q @ vals) ! i"
    if "i < num_elements q" for i
    using that by (simp add: nth_append len) (simp add: pending_def)
  show ?thesis
    unfolding fifo_inv_def
    apply (rule exI [of _ 0], rule exI [of _ "num_elements q"])
    using assms st by (simp add: spsc_on_def queue_ok_def len)
qed

lemma producer_step_fifo:
  assumes "fifo_inv r0 xs s"
  shows "\<exists>s'. producer_step s = Inr s' \<and> fifo_inv r0 xs s' \<and>
           producer_steps_left s' = producer_steps_left s - 1"
proof (cases "to_write s")
  case Nil
  with assms show ?thesis by (simp add: producer_step_def producer_steps_left_def)
next
  case (Cons v vs)
  let ?N = "length (store (queue s))"
  from assms obtain a b where ab: "a \<le> b" "b \<le> length xs"
    "length xs \<le> ?N" "0 < ?N"
    "?N < 18446744073709551616"
    "num_elements (queue s) = b - a"
    "to_write s = drop b xs"
    "next_read_index (queue s) = (r0 + a) mod ?N"
    "next_write_index (queue s) = (r0 + b) mod ?N"
    "\<forall>i < b + (if ppc s = P_populated then 1 else 0).
       store (queue s) ! ((r0 + i) mod ?N) = xs ! i"
    "was_read s = take (a + (if cpc s = C_consumed then 1 else 0)) xs"
    "cpc s \<noteq> C_idle \<longrightarrow> a < b"
    "\<forall>p. cpc s = C_has_slot p \<longrightarrow> p = next_read_index (queue s)"
    "\<forall>p. ppc s = P_has_slot p \<longrightarrow> p = next_write_index (queue s)"
    unfolding fifo_inv_def by blast
  from Cons ab(7) have blt: "b < length xs" by (cases "b < length xs") auto
  with Cons ab(7) have v: "v = xs ! b" and vs: "vs = drop (Suc b) xs"
    by (simp_all add: Cons_nth_drop_Suc [symmetric])
  from blt ab(3) have bN: "b < ?N" by simp
  let ?w = "(r0 + b) mod ?N"
  have wN: "?w < ?N" using ab(4) by simp
  have k: "length (to_write s) = Suc (length vs)" using Cons by simp
  show ?thesis
  proof (cases "ppc s")
    case P_idle
    let ?s' = "s\<lparr>ppc := P_has_slot (getNextToWrite (queue s))\<rparr>"
    have st: "producer_step s = Inr ?s'"
      using P_idle by (simp add: producer_step_def Cons)
    have "fifo_inv r0 xs ?s'"
      unfolding fifo_inv_def
      apply (rule exI [of _ a], rule exI [of _ b])
      using ab P_idle by (simp add: getNextToWrite_def)
    moreover have "producer_steps_left ?s' = producer_steps_left s - 1"
      using P_idle Cons by (simp add: producer_steps_left_def)
    ultimately show ?thesis using st by blast
  next
    case (P_has_slot p)
    with ab(14) ab(9) have p: "p = ?w" by simp
    let ?s' = "s\<lparr>queue := (queue s)\<lparr>store := (store (queue s))[?w := v]\<rparr>, ppc := P_populated\<rparr>"
    have st: "producer_step s = Inr ?s'"
      using wN by (simp add: producer_step_def Cons P_has_slot p write_slot_def andThen_def)
    have old: "(store (queue s))[?w := v] ! ((r0 + i) mod ?N) = xs ! i" if "i < b" for i
    proof -
      from mod_add_neq [OF that bN, of r0] have "(r0 + i) mod ?N \<noteq> ?w" .
      then have "(store (queue s))[?w := v] ! ((r0 + i) mod ?N) = store (queue s) ! ((r0 + i) mod ?N)"
        by simp
      also have "\<dots> = xs ! i" using ab(10) that by simp
      finally show ?thesis .
    qed
    have new: "(store (queue s))[?w := v] ! ?w = xs ! b"
      using wN v by simp
    have all: "\<forall>i < b + 1. (store (queue s))[?w := v] ! ((r0 + i) mod ?N) = xs ! i"
      using old new by (auto simp: less_Suc_eq)
    have "fifo_inv r0 xs ?s'"
      unfolding fifo_inv_def
      apply (rule exI [of _ a], rule exI [of _ b])
      using ab(1-9,11-13) all by simp
    moreover have "producer_steps_left ?s' = producer_steps_left s - 1"
      using P_has_slot Cons by (simp add: producer_steps_left_def)
    ultimately show ?thesis using st by blast
  next
    case P_populated
    let ?q' = "(queue s)\<lparr>next_write_index := (r0 + Suc b) mod ?N, num_elements := Suc (b - a)\<rparr>"
    let ?s' = "s\<lparr>queue := ?q', to_write := vs, ppc := P_idle\<rparr>"
    have s1: "size_t (?w + 1) = Suc ?w" using wN ab(5) by (simp add: size_t_small)
    have s2: "size_t (num_elements (queue s) + 1) = Suc (b - a)"
      using bN ab(5,6) by (simp add: size_t_small)
    have s3: "Suc ?w mod ?N = (r0 + Suc b) mod ?N" by (simp add: mod_Suc_eq)
    have st: "producer_step s = Inr ?s'"
      using ab(4) s1 s2 s3
      by (simp add: producer_step_def Cons P_populated updateWriteIndex_def andThen_def ab(9))
    have all: "\<forall>i < Suc b. store (queue s) ! ((r0 + i) mod ?N) = xs ! i"
      using ab(10) P_populated by simp
    have "fifo_inv r0 xs ?s'"
      unfolding fifo_inv_def
      apply (rule exI [of _ a], rule exI [of _ "Suc b"])
      using ab(1-8,11-13) all blt vs by (simp add: Suc_diff_le)
    moreover have "producer_steps_left ?s' = producer_steps_left s - 1"
      using P_populated Cons by (simp add: producer_steps_left_def)
    ultimately show ?thesis using st by blast
  qed
qed

lemma consumer_step_fifo:
  assumes "fifo_inv r0 xs s"
  shows "\<exists>s'. consumer_step s = Inr s' \<and> fifo_inv r0 xs s' \<and> to_write s' = to_write s \<and>
           consumer_steps_left s' = consumer_steps_left s - 1"
proof -
  let ?N = "length (store (queue s))"
  from assms obtain a b where ab: "a \<le> b" "b \<le> length xs"
    "length xs \<le> ?N" "0 < ?N"
    "?N < 18446744073709551616"
    "num_elements (queue s) = b - a"
    "to_write s = drop b xs"
    "next_read_index (queue s) = (r0 + a) mod ?N"
    "next_write_index (queue s) = (r0 + b) mod ?N"
    "\<forall>i < b + (if ppc s = P_populated then 1 else 0).
       store (queue s) ! ((r0 + i) mod ?N) = xs ! i"
    "was_read s = take (a + (if cpc s = C_consumed then 1 else 0)) xs"
    "cpc s \<noteq> C_idle \<longrightarrow> a < b"
    "\<forall>p. cpc s = C_has_slot p \<longrightarrow> p = next_read_index (queue s)"
    "\<forall>p. ppc s = P_has_slot p \<longrightarrow> p = next_write_index (queue s)"
    unfolding fifo_inv_def by blast
  let ?r = "(r0 + a) mod ?N"
  have rN: "?r < ?N" using ab(4) by simp
  show ?thesis
  proof (cases "cpc s")
    case C_idle
    show ?thesis
    proof (cases "num_elements (queue s) = 0")
      case True
      with C_idle assms show ?thesis
        by (simp add: consumer_step_def getNextToRead_def size_LFQueue_def
            consumer_steps_left_def)
    next
      case False
      let ?s' = "s\<lparr>cpc := C_has_slot (next_read_index (queue s))\<rparr>"
      from False C_idle have st: "consumer_step s = Inr ?s'"
        by (simp add: consumer_step_def getNextToRead_def size_LFQueue_def)
      have "fifo_inv r0 xs ?s'"
        unfolding fifo_inv_def
        apply (rule exI [of _ a], rule exI [of _ b])
        using ab C_idle False by auto
      moreover have "consumer_steps_left ?s' = consumer_steps_left s - 1"
        using C_idle by (simp add: consumer_steps_left_def)
      ultimately show ?thesis using st by simp
    qed
  next
    case (C_has_slot p)
    with ab(12) have lt: "a < b" by simp
    with ab(2) have ak: "a < length xs" by simp
    from ab(8,13) C_has_slot have p: "p = ?r" by simp
    from ab(10) lt have rd: "store (queue s) ! ?r = xs ! a" by simp
    let ?s' = "s\<lparr>was_read := was_read s @ [xs ! a], cpc := C_consumed\<rparr>"
    have st: "consumer_step s = Inr ?s'"
      using rN rd by (simp add: consumer_step_def C_has_slot p read_slot_def andThen_def)
    have "fifo_inv r0 xs ?s'"
      unfolding fifo_inv_def
      apply (rule exI [of _ a], rule exI [of _ b])
      using ab C_has_slot lt ak by (simp add: take_Suc_conv_app_nth)
    moreover have "consumer_steps_left ?s' = consumer_steps_left s - 1"
      using C_has_slot by (simp add: consumer_steps_left_def)
    ultimately show ?thesis using st by simp
  next
    case C_consumed
    with ab(12) have lt: "a < b" by simp
    let ?q' = "(queue s)\<lparr>next_read_index := (r0 + Suc a) mod ?N, num_elements := b - Suc a\<rparr>"
    let ?s' = "s\<lparr>queue := ?q', cpc := C_idle\<rparr>"
    have s1: "size_t (?r + 1) = Suc ?r" using rN ab(5) by (simp add: size_t_small)
    have s3: "Suc ?r mod ?N = (r0 + Suc a) mod ?N" by (simp add: mod_Suc_eq)
    have st: "consumer_step s = Inr ?s'"
      using ab(4) lt s1 s3
      by (simp add: consumer_step_def C_consumed updateReadIndex_def andThen_def ASSERT_def
          Let_def ab(8) ab(6))
    have "fifo_inv r0 xs ?s'"
      unfolding fifo_inv_def
      apply (rule exI [of _ "Suc a"], rule exI [of _ b])
      using ab C_consumed lt by auto
    moreover have "consumer_steps_left ?s' = consumer_steps_left s - 1"
      using C_consumed lt ab(6) by (simp add: consumer_steps_left_def)
    ultimately show ?thesis using st by simp
  qed
qed

lemma run_schedule_fifo:
  "fifo_inv r0 xs s \<Longrightarrow> \<exists>s'. run_schedule sched s = Inr s' \<and> fifo_inv r0 xs s'"
proof (induction sched arbitrary: s)
  case Nil
  then show ?case by simp
next
  case (Cons t ts)
  show ?case
  proof (cases t)
    case Producer
    from producer_step_fifo [OF Cons.prems] obtain s1
      where "producer_step s = Inr s1" "fifo_inv r0 xs s1" by blast
    with Cons.IH [of s1] Producer show ?thesis by (simp add: andThen_def)
  next
    case Consumer
    from consumer_step_fifo [OF Cons.prems] obtain s1
      where "consumer_step s = Inr s1" "fifo_inv r0 xs s1" by blast
    with Cons.IH [of s1] Consumer show ?thesis by (simp add: andThen_def)
  qed
qed

lemma run_schedule_append:
  "run_schedule (ts @ us) s = andThen (run_schedule ts s) (run_schedule us)"
  by (induction ts s rule: run_schedule.induct) (auto simp: andThen_def split: sum.splits)

lemma fifo_inv_prefix: "fifo_inv r0 xs s \<Longrightarrow> prefix (was_read s) xs"
  unfolding fifo_inv_def by (auto simp: take_is_prefix)

lemma fifo_inv_complete:
  "fifo_inv r0 xs s \<Longrightarrow> to_write s = [] \<Longrightarrow> num_elements (queue s) = 0 \<Longrightarrow> was_read s = xs"
  unfolding fifo_inv_def by auto

lemma take_mid_drop:
  "a \<le> b \<Longrightarrow> take a xs @ take (b - a) (drop a xs) @ drop b xs = xs"
proof -
  assume ab: "a \<le> b"
  have "take (b - a) (drop a xs) = drop a (take b xs)" by (simp add: drop_take)
  moreover have "take a xs = take a (take b xs)" using ab by (simp add: min_def)
  ultimately have "take a xs @ take (b - a) (drop a xs) = take b xs"
    by (simp only: append_take_drop_id)
  then show ?thesis by (simp only: append_assoc [symmetric] append_take_drop_id)
qed

lemma fifo_inv_pending:
  assumes "fifo_inv r0 xs s"
  shows "was_read s @ drop (if cpc s = C_consumed then 1 else 0) (pending (queue s)) @ to_write s
           = xs"
proof -
  let ?N = "length (store (queue s))"
  from assms obtain a b where ab: "a \<le> b" "b \<le> length xs"
    "num_elements (queue s) = b - a"
    "to_write s = drop b xs"
    "next_read_index (queue s) = (r0 + a) mod ?N"
    "\<forall>i < b + (if ppc s = P_populated then 1 else 0).
       store (queue s) ! ((r0 + i) mod ?N) = xs ! i"
    "was_read s = take (a + (if cpc s = C_consumed then 1 else 0)) xs"
    "cpc s \<noteq> C_idle \<longrightarrow> a < b"
    unfolding fifo_inv_def by blast
  have slot: "store (queue s) ! (((r0 + a) mod ?N + j) mod ?N) = xs ! (a + j)" if "j < b - a" for j
  proof -
    have "((r0 + a) mod ?N + j) mod ?N = (r0 + (a + j)) mod ?N"
      by (simp add: mod_add_left_eq add.assoc)
    moreover from that have "a + j < b" by simp
    ultimately show ?thesis using ab(6) by simp
  qed
  have p: "pending (queue s) = take (b - a) (drop a xs)"
  proof (rule nth_equalityI)
    show "length (pending (queue s)) = length (take (b - a) (drop a xs))"
      using ab(1,2,3) by (simp add: pending_def)
    fix j assume "j < length (pending (queue s))"
    then have j: "j < b - a" using ab(3) by (simp add: pending_def)
    with slot [OF j] ab(1,2) show "pending (queue s) ! j = take (b - a) (drop a xs) ! j"
      by (simp add: pending_def ab(3,5))
  qed
  show ?thesis
  proof (cases "cpc s = C_consumed")
    case False
    with ab(7) have "was_read s = take a xs" by simp
    with False p ab(4) take_mid_drop [OF ab(1), of xs] show ?thesis by simp
  next
    case True
    with ab(8) have lt: "Suc a \<le> b" by simp
    from True ab(7) have w: "was_read s = take (Suc a) xs" by simp
    have "drop 1 (pending (queue s)) = take (b - Suc a) (drop (Suc a) xs)"
      unfolding p by (simp add: drop_take)
    with True w ab(4) take_mid_drop [OF lt, of xs] show ?thesis by simp
  qed
qed

lemma fifo_inv_left:
  "fifo_inv r0 xs s \<Longrightarrow>
   producer_steps_left s \<le> 3 * length xs \<and> consumer_steps_left s \<le> 3 * length xs"
  unfolding fifo_inv_def producer_steps_left_def consumer_steps_left_def by auto

lemma producer_finishes:
  "fifo_inv r0 xs s \<Longrightarrow> producer_steps_left s \<le> n \<Longrightarrow>
   \<exists>s'. run_schedule (replicate n Producer) s = Inr s' \<and> fifo_inv r0 xs s' \<and> to_write s' = []"
proof (induction n arbitrary: s)
  case 0
  have "to_write s = []"
  proof (rule ccontr)
    assume "to_write s \<noteq> []"
    then have "0 < length (to_write s)" by simp
    with 0(2) \<open>to_write s \<noteq> []\<close> show False
      by (cases "ppc s") (simp_all add: producer_steps_left_def)
  qed
  with 0 show ?case by simp
next
  case (Suc n)
  from producer_step_fifo [OF Suc.prems(1)] obtain s1 where
    s1: "producer_step s = Inr s1" "fifo_inv r0 xs s1"
    "producer_steps_left s1 = producer_steps_left s - 1" by blast
  with Suc.prems(2) have "producer_steps_left s1 \<le> n" by simp
  from Suc.IH [OF s1(2) this] s1(1) show ?case by (simp add: andThen_def)
qed

lemma consumer_finishes:
  "fifo_inv r0 xs s \<Longrightarrow> to_write s = [] \<Longrightarrow> consumer_steps_left s \<le> n \<Longrightarrow>
   \<exists>s'. run_schedule (replicate n Consumer) s = Inr s' \<and> fifo_inv r0 xs s' \<and>
        to_write s' = [] \<and> num_elements (queue s') = 0"
proof (induction n arbitrary: s)
  case 0
  from 0(1) have "cpc s \<noteq> C_idle \<longrightarrow> 0 < num_elements (queue s)"
    unfolding fifo_inv_def by auto
  with 0(3) have "num_elements (queue s) = 0"
    by (cases "cpc s") (auto simp: consumer_steps_left_def)
  with 0 show ?case by simp
next
  case (Suc n)
  from consumer_step_fifo [OF Suc.prems(1)] obtain s1 where
    s1: "consumer_step s = Inr s1" "fifo_inv r0 xs s1" "to_write s1 = to_write s"
    "consumer_steps_left s1 = consumer_steps_left s - 1" by blast
  with Suc.prems have "consumer_steps_left s1 \<le> n" "to_write s1 = []" by simp_all
  from Suc.IH [OF s1(2) this(2) this(1)] s1(1) show ?case by (simp add: andThen_def)
qed

lemma fifo_inv_drain:
  assumes "fifo_inv r0 xs s"
  shows "\<exists>s'. run_schedule (replicate (3 * length xs) Producer @
                             replicate (3 * length xs) Consumer) s = Inr s' \<and>
           was_read s' = xs \<and> to_write s' = [] \<and> size_LFQueue (queue s') = 0"
proof -
  from fifo_inv_left [OF assms] have l: "producer_steps_left s \<le> 3 * length xs" by simp
  from producer_finishes [OF assms l] obtain s1 where
    s1: "run_schedule (replicate (3 * length xs) Producer) s = Inr s1" "fifo_inv r0 xs s1"
    "to_write s1 = []" by blast
  from fifo_inv_left [OF s1(2)] have l1: "consumer_steps_left s1 \<le> 3 * length xs" by simp
  from consumer_finishes [OF s1(2,3) l1] obtain s2 where
    s2: "run_schedule (replicate (3 * length xs) Consumer) s1 = Inr s2" "fifo_inv r0 xs s2"
    "to_write s2 = []" "num_elements (queue s2) = 0" by blast
  from fifo_inv_complete [OF s2(2,3,4)] s1(1) s2 show ?thesis
    by (simp add: run_schedule_append andThen_def size_LFQueue_def)
qed

lemma run_schedule_no_capacity:
  assumes "store (queue s) = []" and "num_elements (queue s) = 0" and "to_write s = []"
    and "cpc s = C_idle"
  shows "run_schedule sched s = Inr s"
proof (induction sched)
  case Nil
  show ?case by simp
next
  case (Cons t ts)
  have "producer_step s = Inr s" using assms(3) by (simp add: producer_step_def)
  moreover have "consumer_step s = Inr s"
    using assms(2,4) by (simp add: consumer_step_def getNextToRead_def size_LFQueue_def)
  ultimately show ?case using Cons by (cases t) (simp_all add: andThen_def)
qed

text \<open>
  C1. A producer writes the sequence \<open>vals\<close> into the ring buffer while a consumer drains
  it, the steps of the two interleaved by an arbitrary schedule. The buffer is in any
  state its operations leave it in (indices anywhere in the vector, \<open>pending q\<close> still
  unread), and \<open>vals\<close> fits into what is free of its capacity; a fresh buffer of capacity
  \<open>N\<close> and \<open>k \<le> N\<close> values is the case \<open>pending q = []\<close>. Then no step ends the process;
  at every moment what the consumer has read, what the buffer holds unread and what the
  producer has still to write make up \<open>pending q @ vals\<close>, in this order (an element the
  consumer has read but not yet released is still counted in the buffer and is left out
  there), so what has been read is a prefix of \<open>pending q @ vals\<close>, and all of it once
  the producer is done and the buffer is empty; and from every state the schedule
  reaches, letting the producer and then the consumer take three steps for every element
  makes the consumer read all of it: every element written is read, once, in the order
  written.
\<close>

theorem spsc_fifo:
  assumes "queue_ok q \<or> (store q = [] \<and> num_elements q = 0)"
    and "num_elements q + length vals \<le> length (store q)"
  shows "\<exists>s. run_schedule sched (spsc_on q vals) = Inr s \<and>
           was_read s @ drop (if cpc s = C_consumed then 1 else 0) (pending (queue s)) @
             to_write s = pending q @ vals \<and>
           prefix (was_read s) (pending q @ vals) \<and>
           (to_write s = [] \<and> size_LFQueue (queue s) = 0 \<longrightarrow> was_read s = pending q @ vals) \<and>
           (\<exists>s'. run_schedule
                   (replicate (3 * length (pending q @ vals)) Producer @
                    replicate (3 * length (pending q @ vals)) Consumer) s = Inr s' \<and>
                 was_read s' = pending q @ vals \<and> to_write s' = [] \<and>
                 size_LFQueue (queue s') = 0)"
proof (cases "queue_ok q")
  case True
  let ?xs = "pending q @ vals"
  from fifo_inv_start [OF True assms(2)]
  have "fifo_inv (next_read_index q) ?xs (spsc_on q vals)" .
  from run_schedule_fifo [OF this, of sched] obtain s where
    s: "run_schedule sched (spsc_on q vals) = Inr s" "fifo_inv (next_read_index q) ?xs s"
    by blast
  from fifo_inv_prefix [OF s(2)] have "prefix (was_read s) ?xs" .
  moreover note fifo_inv_pending [OF s(2)]
  moreover have "to_write s = [] \<and> size_LFQueue (queue s) = 0 \<longrightarrow> was_read s = ?xs"
    using fifo_inv_complete [OF s(2)] by (simp add: size_LFQueue_def)
  moreover note fifo_inv_drain [OF s(2)]
  ultimately show ?thesis using s(1) by blast
next
  case False
  with assms have e: "store q = []" "num_elements q = 0" "vals = []" by auto
  let ?s = "spsc_on q vals"
  have r: "run_schedule ts ?s = Inr ?s" for ts
    by (rule run_schedule_no_capacity) (simp_all add: spsc_on_def e)
  have "pending q @ vals = []" using e by (simp add: pending_def)
  moreover have "was_read ?s = []" "to_write ?s = []" "size_LFQueue (queue ?s) = 0"
    "pending (queue ?s) = []"
    using e by (simp_all add: spsc_on_def size_LFQueue_def pending_def)
  ultimately show ?thesis using r by simp
qed


theorem spsc_fifo_witness:
  "queue_ok \<lparr>store = [7, 8, 9::nat], next_write_index = 0, next_read_index = 2,
             num_elements = 1\<rparr> \<and>
   pending \<lparr>store = [7, 8, 9::nat], next_write_index = 0, next_read_index = 2,
            num_elements = 1\<rparr> = [9] \<and>
   run_schedule [Consumer, Producer, Producer, Consumer, Producer, Consumer, Producer]
     (spsc_on \<lparr>store = [7, 8, 9::nat], next_write_index = 0, next_read_index = 2,
               num_elements = 1\<rparr> [10, 20]) =
     Inr \<lparr>queue = \<lparr>store = [10, 8, 9], next_write_index = 1, next_read_index = 0,
                     num_elements = 1\<rparr>,
          to_write = [20], ppc = P_has_slot 1, cpc = C_idle, was_read = [9]\<rparr> \<and>
   pending \<lparr>store = [10, 8, 9::nat], next_write_index = 1, next_read_index = 0,
            num_elements = 1\<rparr> = [10] \<and>
   (\<exists>s'. run_schedule (replicate 9 Producer @ replicate 9 Consumer)
            \<lparr>queue = \<lparr>store = [10, 8, 9::nat], next_write_index = 1, next_read_index = 0,
                       num_elements = 1\<rparr>,
             to_write = [20], ppc = P_has_slot 1, cpc = C_idle, was_read = [9]\<rparr> = Inr s' \<and>
          was_read s' = [9, 10, 20] \<and> to_write s' = [] \<and> size_LFQueue (queue s') = 0)"
proof -
  let ?q = "\<lparr>store = [7, 8, 9::nat], next_write_index = 0, next_read_index = 2,
             num_elements = 1\<rparr>"
  let ?sched = "[Consumer, Producer, Producer, Consumer, Producer, Consumer, Producer]"
  let ?mid = "\<lparr>queue = \<lparr>store = [10, 8, 9::nat], next_write_index = 1, next_read_index = 0,
                          num_elements = 1\<rparr>,
               to_write = [20], ppc = P_has_slot 1, cpc = C_idle, was_read = [9]\<rparr>"
  have ok: "queue_ok ?q" by (simp add: queue_ok_def)
  have h1: "queue_ok ?q \<or> (store ?q = [] \<and> num_elements ?q = 0)" using ok by simp
  have h2: "num_elements ?q + length [10, 20::nat] \<le> length (store ?q)" by simp
  have p: "pending ?q = [9]" by (simp add: pending_def)
  have r: "run_schedule ?sched (spsc_on ?q [10, 20]) = Inr ?mid"
    by (simp add: spsc_on_def producer_step_def consumer_step_def
        getNextToWrite_def getNextToRead_def size_LFQueue_def write_slot_def read_slot_def
        updateWriteIndex_def updateReadIndex_def andThen_def ASSERT_def size_t_small)
  from spsc_fifo [OF h1 h2, of ?sched]
  have "pending (queue ?mid) = [10] \<and>
        (\<exists>s'. run_schedule (replicate 9 Producer @ replicate 9 Consumer) ?mid = Inr s' \<and>
          was_read s' = [9, 10, 20] \<and> to_write s' = [] \<and> size_LFQueue (queue s') = 0)"
    unfolding r p by simp
  with ok p r show ?thesis by simp
qed

subsection \<open>Logger: what the push operations do to the queue\<close>

lemma log_ready_enqueue: "log_ready l \<Longrightarrow> log_ready (l\<lparr>log_queue := enqueue (log_queue l) e\<rparr>)"
proof -
  assume "log_ready l"
  then have "store (log_queue l) \<noteq> []" by (auto simp: log_ready_def)
  then show ?thesis by (simp add: log_ready_def enqueue_def)
qed

lemma log_ready_foldl:
  "log_ready l \<Longrightarrow> log_ready (l\<lparr>log_queue := foldl enqueue (log_queue l) es\<rparr>)"
proof (induction es arbitrary: l)
  case Nil
  then show ?case by simp
next
  case (Cons e es)
  from Cons.IH [OF log_ready_enqueue [OF Cons.prems, of e]] show ?case by simp
qed

lemma pushValue_elem_eq:
  "log_ready l \<Longrightarrow> pushValue_elem l e = Inr (l\<lparr>log_queue := enqueue (log_queue l) e\<rparr>)"
  by (auto simp: log_ready_def pushValue_elem_def write_slot_def getNextToWrite_def
      updateWriteIndex_def andThen_def enqueue_def)

lemma pushValue_char_eq:
  "log_ready l \<Longrightarrow> pushValue_char l c = Inr (l\<lparr>log_queue := enqueue (log_queue l) (char_elem c)\<rparr>)"
  by (simp add: pushValue_char_def pushValue_elem_eq char_elem_def)

lemma pushValue_cstr_eq:
  "log_ready l \<Longrightarrow>
   pushValue_cstr l s = Inr (l\<lparr>log_queue := foldl enqueue (log_queue l) (map char_elem (c_str s))\<rparr>)"
proof (induction s arbitrary: l)
  case Nil
  then show ?case by (simp add: c_str_def)
next
  case (Cons c cs)
  show ?case
  proof (cases "c = CHR 0x00")
    case True
    then show ?thesis by (simp add: c_str_def)
  next
    case False
    from Cons.IH [OF log_ready_enqueue [OF Cons.prems, of "char_elem c"]] False Cons.prems
    show ?thesis by (simp add: c_str_def pushValue_char_eq)
  qed
qed

lemma pushValue_eq:
  "log_ready l \<Longrightarrow>
   pushValue l a = Inr (l\<lparr>log_queue := foldl enqueue (log_queue l) (elems_of_arg a)\<rparr>)"
  by (cases a)
    (simp_all add: pushValue_elem_eq pushValue_char_eq pushValue_cstr_eq pushValue_int_def
      pushValue_long_def pushValue_long_long_def pushValue_unsigned_def
      pushValue_unsigned_long_def pushValue_unsigned_long_long_def pushValue_float_def
      pushValue_double_def pushValue_string_def)

lemma placeholders_simps:
  "placeholders [] = 0"
  "c = CHR 0x00 \<Longrightarrow> placeholders (c # cs) = 0"
  "c \<noteq> CHR 0x00 \<Longrightarrow> c \<noteq> CHR ''%'' \<Longrightarrow> placeholders (c # cs) = placeholders cs"
  "placeholders [CHR ''%''] = 1"
  "placeholders (CHR ''%'' # CHR ''%'' # cs') = placeholders cs'"
  "c' \<noteq> CHR ''%'' \<Longrightarrow> placeholders (CHR ''%'' # c' # cs') = Suc (placeholders (c' # cs'))"
  by (simp_all add: placeholders_def)

lemma log_elements_simps:
  "log_elements [] args = []"
  "c = CHR 0x00 \<Longrightarrow> log_elements (c # cs) args = []"
  "c \<noteq> CHR 0x00 \<Longrightarrow> c \<noteq> CHR ''%'' \<Longrightarrow>
     log_elements (c # cs) args = char_elem c # log_elements cs args"
  "log_elements (CHR ''%'' # CHR ''%'' # cs') args = char_elem (CHR ''%'') # log_elements cs' args"
  "log_elements [CHR ''%''] (a # args) = elems_of_arg a"
  "c' \<noteq> CHR ''%'' \<Longrightarrow>
     log_elements (CHR ''%'' # c' # cs') (a # args) = elems_of_arg a @ log_elements (c' # cs') args"
  by (simp_all add: log_elements_def)

lemma log_no_args_eq:
  "log_ready l \<Longrightarrow>
   log_no_args l s =
     (if placeholders s = 0
      then Inr (l\<lparr>log_queue := foldl enqueue (log_queue l) (log_elements s [])\<rparr>)
      else FATAL ''missing arguments to log()'')"
proof (induction l s rule: log_no_args.induct)
  case (1 l)
  then show ?case by (simp add: placeholders_simps log_elements_simps)
next
  case (2 l c cs)
  note ready = \<open>log_ready l\<close>
  show ?case
  proof (cases "c = CHR 0x00")
    case True
    then show ?thesis by (simp add: placeholders_simps log_elements_simps)
  next
    case nz: False
    show ?thesis
    proof (cases "c = CHR ''%''")
      case False
      let ?l' = "l\<lparr>log_queue := enqueue (log_queue l) (char_elem c)\<rparr>"
      have p: "pushValue_char l c = Inr ?l'" using ready by (rule pushValue_char_eq)
      from "2.IH"(2) [OF nz False p log_ready_enqueue [OF ready]] nz False p
      show ?thesis by (simp add: placeholders_simps log_elements_simps)
    next
      case pc: True
      show ?thesis
      proof (cases cs)
        case Nil
        with pc show ?thesis by (simp add: placeholders_simps FATAL_def)
      next
        case (Cons c' cs')
        show ?thesis
        proof (cases "c' = CHR ''%''")
          case True
          let ?l' = "l\<lparr>log_queue := enqueue (log_queue l) (char_elem c')\<rparr>"
          have p: "pushValue_char l c' = Inr ?l'" using ready by (rule pushValue_char_eq)
          from "2.IH"(1) [OF nz pc Cons True p log_ready_enqueue [OF ready]] pc Cons True p
          show ?thesis by (simp add: placeholders_simps log_elements_simps)
        next
          case False
          with pc Cons show ?thesis by (simp add: placeholders_simps FATAL_def)
        qed
      qed
    qed
  qed
qed

lemma log_eq:
  "log_ready l \<Longrightarrow>
   log l s args =
     (if placeholders s = length args
      then Inr (l\<lparr>log_queue := foldl enqueue (log_queue l) (log_elements s args)\<rparr>)
      else if placeholders s < length args then FATAL ''extra arguments provided to log()''
      else FATAL ''missing arguments to log()'')"
proof (induction l s args rule: log.induct)
  case (1 l s)
  then show ?case by (simp add: log_no_args_eq)
next
  case (2 l v args)
  then show ?case by (simp add: placeholders_simps)
next
  case (3 l c cs v args)
  note ready = \<open>log_ready l\<close>
  show ?case
  proof (cases "c = CHR 0x00")
    case True
    then show ?thesis by (simp add: placeholders_simps)
  next
    case nz: False
    show ?thesis
    proof (cases "c = CHR ''%''")
      case False
      let ?l' = "l\<lparr>log_queue := enqueue (log_queue l) (char_elem c)\<rparr>"
      have p: "pushValue_char l c = Inr ?l'" using ready by (rule pushValue_char_eq)
      from "3.IH"(4) [OF nz False p log_ready_enqueue [OF ready]] nz False p
      show ?thesis by (simp add: placeholders_simps log_elements_simps)
    next
      case pc: True
      let ?lv = "l\<lparr>log_queue := foldl enqueue (log_queue l) (elems_of_arg v)\<rparr>"
      have pv: "pushValue l v = Inr ?lv" using ready by (rule pushValue_eq)
      have rv: "log_ready ?lv" using ready by (rule log_ready_foldl)
      show ?thesis
      proof (cases cs)
        case Nil
        from "3.IH"(1) [OF nz pc Nil pv rv] pc Nil pv
        show ?thesis by (auto simp: placeholders_simps log_elements_simps FATAL_def)
      next
        case (Cons c' cs')
        show ?thesis
        proof (cases "c' = CHR ''%''")
          case True
          let ?l' = "l\<lparr>log_queue := enqueue (log_queue l) (char_elem c')\<rparr>"
          have p: "pushValue_char l c' = Inr ?l'" using ready by (rule pushValue_char_eq)
          from "3.IH"(2) [OF nz pc Cons True p log_ready_enqueue [OF ready]] pc Cons True p
          show ?thesis by (simp add: placeholders_simps log_elements_simps)
        next
          case False
          from "3.IH"(3) [OF nz pc Cons False pv rv] pc Cons False pv
          show ?thesis by (auto simp: placeholders_simps log_elements_simps FATAL_def)
        qed
      qed
    qed
  qed
qed

subsection \<open>Logger: rendering and the flush pass\<close>

lemma render_well_tagged:
  "well_tagged e \<Longrightarrow> render sf sd e = Inr (text_of_elem sf sd e)"
  by (cases "render sf sd e") (auto simp: text_of_elem_def well_tagged_def render_def
      andThen_def read_c_def read_i_def read_l_def read_ll_def read_u_def read_ul_def
      read_ull_def read_f_def read_d_def inactive_def
      split: LogType.splits u_member.splits)

lemma render_ill_tagged:
  "\<not> well_tagged e \<Longrightarrow> render sf sd e = Inl (Undefined ''read of an inactive union member'')"
  by (cases "elem_u e"; cases "elem_type e")
    (simp_all add: well_tagged_def render_def andThen_def read_c_def read_i_def read_l_def
      read_ll_def read_u_def read_ul_def read_ull_def read_f_def read_d_def inactive_def)

lemma text_of_char_elem: "text_of_elem sf sd (char_elem c) = [c]"
  by (simp add: text_of_elem_def render_def char_elem_def read_c_def andThen_def)

lemma well_tagged_char_elem: "well_tagged (char_elem c)"
  by (simp add: well_tagged_def char_elem_def)

lemma concat_text_char_elems: "concat (map (text_of_elem sf sd \<circ> char_elem) cs) = cs"
  by (induction cs) (simp_all add: text_of_char_elem)

lemma text_of_elems_of_arg:
  "concat (map (text_of_elem sf sd) (elems_of_arg a)) = text_of sf sd a"
  by (cases a)
    (simp_all add: concat_text_char_elems text_of_elem_def render_def andThen_def char_elem_def
      read_c_def read_i_def read_l_def read_ll_def read_u_def read_ul_def read_ull_def
      read_f_def read_d_def)

lemma well_tagged_elems_of_arg:
  "arg_well_tagged a \<Longrightarrow> e \<in> set (elems_of_arg a) \<Longrightarrow> well_tagged e"
  by (cases a) (auto simp: arg_well_tagged_def well_tagged_def char_elem_def)

lemma fill_text:
  "concat (map (text_of_elem sf sd) (fill elems_of_arg char_elem ts args)) =
   fill (text_of sf sd) (\<lambda>c. c) ts args"
  by (induction elems_of_arg char_elem ts args rule: fill.induct)
    (simp_all add: text_of_char_elem text_of_elems_of_arg)

lemma fill_well_tagged:
  "list_all arg_well_tagged args \<Longrightarrow> e \<in> set (fill elems_of_arg char_elem ts args) \<Longrightarrow>
   well_tagged e"
  by (induction elems_of_arg char_elem ts args rule: fill.induct)
    (auto simp: well_tagged_char_elem well_tagged_elems_of_arg)

lemma flush_pass_eq:
  assumes "queue_ok (log_queue l)"
    and "\<forall>e \<in> set (pending (log_queue l)). well_tagged e"
  shows "\<exists>l'. flush_pass sf sd l = Inr l' \<and>
           log_file l' = log_file l @ concat (map (text_of_elem sf sd) (pending (log_queue l))) \<and>
           num_elements (log_queue l') = 0 \<and> queue_ok (log_queue l') \<and>
           length (store (log_queue l')) = length (store (log_queue l))"
  using assms
proof (induction n \<equiv> "num_elements (log_queue l)" arbitrary: l)
  case 0
  then show ?case
    by (subst flush_pass.simps) (simp add: getNextToRead_def size_LFQueue_def pending_def)
next
  case (Suc n)
  let ?q = "log_queue l"
  let ?e = "store ?q ! next_read_index ?q"
  let ?q' = "?q\<lparr>next_read_index := size_t (next_read_index ?q + 1) mod length (store ?q),
                num_elements := num_elements ?q - 1\<rparr>"
  let ?l' = "l\<lparr>log_file := log_file l @ text_of_elem sf sd ?e, log_queue := ?q'\<rparr>"
  from Suc.hyps(2) have ne: "num_elements ?q \<noteq> 0" by simp
  note pc = pending_Cons [OF Suc.prems(1) ne]
  from Suc.prems(1) have r: "next_read_index ?q < length (store ?q)" "store ?q \<noteq> []"
    by (auto simp: queue_ok_def)
  from pc(1) Suc.prems(2) have wt: "well_tagged ?e" and wt': "\<forall>e \<in> set (pending ?q'). well_tagged e"
    by simp_all
  have step: "flush_pass sf sd l = flush_pass sf sd ?l'"
    by (subst flush_pass.simps)
      (use ne r in \<open>simp add: getNextToRead_def size_LFQueue_def read_slot_def
        render_well_tagged [OF wt] updateReadIndex_def andThen_def ASSERT_def Let_def\<close>)
  have n: "n = num_elements (log_queue ?l')" using Suc.hyps(2) by simp
  from Suc.hyps(1) [OF n] pc(2) wt'
  obtain l2 where "flush_pass sf sd ?l' = Inr l2"
    "log_file l2 = log_file ?l' @ concat (map (text_of_elem sf sd) (pending (log_queue ?l')))"
    "num_elements (log_queue l2) = 0" "queue_ok (log_queue l2)"
    "length (store (log_queue l2)) = length (store (log_queue ?l'))"
    by auto
  with step pc(1) show ?case by simp
qed

lemma queue_ok_ready: "queue_ok (log_queue l) \<Longrightarrow> log_ready l"
  by (simp add: queue_ok_def log_ready_def)

lemma Logger_new_ok:
  "queue_ok (log_queue Logger_new)" "pending (log_queue Logger_new) = []"
  "num_elements (log_queue Logger_new) = 0"
  "length (store (log_queue Logger_new)) = 8388608" "log_file Logger_new = []"
  using queue_ok_new [of LOG_QUEUE_SIZE "\<lparr>elem_type = CHARACTER, elem_u = U_c (CHR 0x00)\<rparr>"]
  by (simp_all add: Logger_new_def LOG_QUEUE_SIZE_def LFQueue_new_def)

lemma pending_empty: "num_elements q = 0 \<Longrightarrow> pending q = []"
  by (simp add: pending_def)

text \<open>
  The calls of \<^verbatim>\<open>log\<close> made by the sockets and by \<^verbatim>\<open>createSocket\<close>, which the models of
  these functions leave out, pass six and five arguments.
\<close>

lemma log_calls_match:
  "placeholders (''%:% %() % read socket:% len:%'' @ [CHR 0x0A]) = 6"
  "placeholders (''%:% %() % send socket:% len:%'' @ [CHR 0x0A]) = 6"
  "placeholders (''%:% %() % cfg:%'' @ [CHR 0x0A]) = 5"
  by (simp_all add: placeholders_def)

subsection \<open>Logger: the text of a call of \<^verbatim>\<open>log\<close>\<close>

text \<open>
  C4. A call \<^verbatim>\<open>log(s, args...)\<close> with as many arguments as \<open>s\<close> has placeholders
  returns; it leaves the file alone and puts behind the elements still pending in the
  queue those of the format string with every \<^verbatim>\<open>%\<close> replaced, in order, by the next
  argument and every \<^verbatim>\<open>%%\<close> by a single \<^verbatim>\<open>%\<close>. The next pass of the flush task
  appends to the file the text of what was pending and then the text of the call, and
  leaves the queue drained. (The elements of the call must fit into what is free of the
  queue, which has no check of its own, and an element, pending or passed as an
  argument, must carry the tag of its union member.)
\<close>

theorem log_writes_expansion:
  assumes "queue_ok (log_queue l)"
    and "list_all well_tagged (pending (log_queue l))"
    and "placeholders s = length args"
    and "list_all arg_well_tagged args"
    and "num_elements (log_queue l) + length (log_elements s args) \<le> length (store (log_queue l))"
  shows "\<exists>l1 l2. log l s args = Inr l1 \<and>
           log_file l1 = log_file l \<and>
           pending (log_queue l1) = pending (log_queue l) @ log_elements s args \<and>
           queue_ok (log_queue l1) \<and>
           length (store (log_queue l1)) = length (store (log_queue l)) \<and>
           num_elements (log_queue l1) = num_elements (log_queue l) + length (log_elements s args) \<and>
           flush_pass sf sd l1 = Inr l2 \<and>
           log_file l2 =
             log_file l @ concat (map (text_of_elem sf sd) (pending (log_queue l))) @
             expand sf sd s args \<and>
           num_elements (log_queue l2) = 0 \<and> queue_ok (log_queue l2) \<and>
           length (store (log_queue l2)) = length (store (log_queue l))"
proof -
  let ?es = "log_elements s args"
  let ?l1 = "l\<lparr>log_queue := foldl enqueue (log_queue l) ?es\<rparr>"
  have l1: "log l s args = Inr ?l1"
    using assms(3) by (simp add: log_eq [OF queue_ok_ready [OF assms(1)]])
  note q1 = foldl_enqueue_pending [OF assms(1) assms(5)]
  from q1 have ok1: "queue_ok (log_queue ?l1)"
    and p1: "pending (log_queue ?l1) = pending (log_queue l) @ ?es"
    and n1: "length (store (log_queue ?l1)) = length (store (log_queue l))"
    and c1: "num_elements (log_queue ?l1) = num_elements (log_queue l) + length ?es"
    by simp_all
  have "\<forall>e \<in> set ?es. well_tagged e"
    unfolding log_elements_def using fill_well_tagged [OF assms(4)] by blast
  with assms(2) have "\<forall>e \<in> set (pending (log_queue l) @ ?es). well_tagged e"
    by (auto simp: list_all_iff)
  then have "\<forall>e \<in> set (pending (log_queue ?l1)). well_tagged e"
    by (simp only: p1)
  from flush_pass_eq [OF ok1 this, of sf sd] obtain l2 where l2:
    "flush_pass sf sd ?l1 = Inr l2"
    "log_file l2 = log_file ?l1 @ concat (map (text_of_elem sf sd) (pending (log_queue ?l1)))"
    "num_elements (log_queue l2) = 0" "queue_ok (log_queue l2)"
    "length (store (log_queue l2)) = length (store (log_queue ?l1))"
    by blast
  have tx: "concat (map (text_of_elem sf sd) ?es) = expand sf sd s args"
    by (simp add: log_elements_def expand_def fill_text)
  have f2: "log_file l2 =
             log_file l @ concat (map (text_of_elem sf sd) (pending (log_queue l))) @
             expand sf sd s args"
    unfolding l2(2) p1 using tx by simp
  show ?thesis
    apply (rule exI [of _ ?l1], rule exI [of _ l2])
    using l1 ok1 p1 n1 c1 l2(1,3,4,5) f2 by simp
qed

theorem log_writes_expansion_witness:
  "(\<exists>l1 l2. log Logger_new ''a=% b=%'' [Arg_int 1, Arg_cstr ''x''] = Inr l1 \<and>
      flush_pass (\<lambda>v. []) (\<lambda>v. []) l1 = Inr l2 \<and> log_file l2 = ''a=1 b=x'') \<and>
   (\<exists>l1 l2 l3. log Logger_new ''100%% done'' [] = Inr l1 \<and>
      num_elements (log_queue l1) = 9 \<and>
      log l1 ''a=% b=%'' [Arg_int 1, Arg_cstr ''x''] = Inr l2 \<and>
      flush_pass (\<lambda>v. []) (\<lambda>v. []) l2 = Inr l3 \<and> log_file l3 = ''100% donea=1 b=x'')"
proof -
  let ?sf = "\<lambda>v::cfloat. []::string"
  let ?sd = "\<lambda>v::cdouble. []::string"
  let ?args = "[Arg_int 1, Arg_cstr ''x'']"
  have w0: "list_all well_tagged (pending (log_queue Logger_new))"
    by (simp add: Logger_new_ok)
  have a: "placeholders ''a=% b=%'' = length ?args"
    by (simp add: placeholders_def)
  have b: "list_all arg_well_tagged ?args"
    by (simp add: arg_well_tagged_def)
  have n: "length (log_elements ''a=% b=%'' ?args) = 7"
    by (simp add: log_elements_def c_str_def)
  have c: "num_elements (log_queue Logger_new) + length (log_elements ''a=% b=%'' ?args)
            \<le> length (store (log_queue Logger_new))"
    by (simp add: n Logger_new_ok)
  have d: "expand ?sf ?sd ''a=% b=%'' ?args = ''a=1 b=x''"
    by (simp add: expand_def c_str_def show_int_def show_nat.simps)
  have a': "placeholders ''100%% done'' = length ([] :: log_arg list)"
    by (simp add: placeholders_def)
  have b': "list_all arg_well_tagged []"
    by simp
  have e': "log_elements ''100%% done'' [] = map char_elem ''100% done''"
    by (simp add: log_elements_def)
  have c': "num_elements (log_queue Logger_new) + length (log_elements ''100%% done'' [])
            \<le> length (store (log_queue Logger_new))"
    by (simp add: e' Logger_new_ok)
  have t': "concat (map (text_of_elem ?sf ?sd) (map char_elem ''100% done'')) = ''100% done''"
    by (simp add: text_of_char_elem)
  from log_writes_expansion [OF Logger_new_ok(1) w0 a b c, of ?sf ?sd]
  obtain k1 k2 where k: "log Logger_new ''a=% b=%'' ?args = Inr k1"
    "flush_pass ?sf ?sd k1 = Inr k2"
    "log_file k2 =
       log_file Logger_new @
       concat (map (text_of_elem ?sf ?sd) (pending (log_queue Logger_new))) @
       expand ?sf ?sd ''a=% b=%'' ?args"
    by blast
  from k(3) have "log_file k2 = ''a=1 b=x''"
    by (simp only: Logger_new_ok d list.map concat.simps append_Nil)
  with k(1,2) have first: "\<exists>l1 l2. log Logger_new ''a=% b=%'' ?args = Inr l1 \<and>
      flush_pass ?sf ?sd l1 = Inr l2 \<and> log_file l2 = ''a=1 b=x''"
    by blast
  from log_writes_expansion [OF Logger_new_ok(1) w0 a' b' c', of ?sf ?sd]
  obtain l1 where l1: "log Logger_new ''100%% done'' [] = Inr l1"
    "log_file l1 = log_file Logger_new"
    "pending (log_queue l1) = pending (log_queue Logger_new) @ log_elements ''100%% done'' []"
    "queue_ok (log_queue l1)"
    "length (store (log_queue l1)) = length (store (log_queue Logger_new))"
    "num_elements (log_queue l1) =
       num_elements (log_queue Logger_new) + length (log_elements ''100%% done'' [])"
    by blast
  from l1(3) have p1: "pending (log_queue l1) = map char_elem ''100% done''"
    by (simp only: Logger_new_ok e' append_Nil)
  from l1(6) have c1: "num_elements (log_queue l1) = 9"
    by (simp add: Logger_new_ok e')
  from l1(5) have n1: "length (store (log_queue l1)) = 8388608"
    by (simp only: Logger_new_ok)
  from l1(2) have f1: "log_file l1 = []"
    by (simp only: Logger_new_ok)
  have w: "list_all well_tagged (pending (log_queue l1))"
    unfolding p1 by (simp add: well_tagged_char_elem)
  have c2: "num_elements (log_queue l1) + length (log_elements ''a=% b=%'' ?args)
             \<le> length (store (log_queue l1))"
    by (simp add: c1 n1 n)
  from log_writes_expansion [OF l1(4) w a b c2, of ?sf ?sd]
  obtain l2 l3 where l23: "log l1 ''a=% b=%'' ?args = Inr l2"
    "flush_pass ?sf ?sd l2 = Inr l3"
    "log_file l3 =
       log_file l1 @ concat (map (text_of_elem ?sf ?sd) (pending (log_queue l1))) @
       expand ?sf ?sd ''a=% b=%'' ?args"
    by blast
  from l23(3) have "log_file l3 = ''100% donea=1 b=x''"
    unfolding f1 p1 t' d by simp
  with l1(1) c1 l23(1,2) have "\<exists>l1 l2 l3. log Logger_new ''100%% done'' [] = Inr l1 \<and>
      num_elements (log_queue l1) = 9 \<and>
      log l1 ''a=% b=%'' ?args = Inr l2 \<and>
      flush_pass ?sf ?sd l2 = Inr l3 \<and> log_file l3 = ''100% donea=1 b=x''"
    by blast
  with first show ?thesis by blast
qed

subsection \<open>Logger: mismatch of format string and arguments\<close>

text \<open>
  C5. A call of \<^verbatim>\<open>log\<close> ends the process whenever the number of arguments differs from the
  number of placeholders of the format string: with \<^verbatim>\<open>FATAL("extra arguments provided
  to log()")\<close> when the format string is exhausted while arguments remain, with
  \<^verbatim>\<open>FATAL("missing arguments to log()")\<close> when a placeholder is reached and no argument is
  left. When the numbers agree the call returns.
\<close>

theorem log_mismatch_exits:
  assumes "log_ready l"
  shows "(placeholders s < length args \<longrightarrow>
            log l s args = FATAL ''extra arguments provided to log()'') \<and>
         (length args < placeholders s \<longrightarrow>
            log l s args = FATAL ''missing arguments to log()'') \<and>
         (placeholders s = length args \<longrightarrow> (\<exists>l'. log l s args = Inr l'))"
  by (simp add: log_eq [OF assms])

theorem log_mismatch_exits_witness:
  "log_ready Logger_new \<and>
   placeholders ''abc'' < length [Arg_int 1] \<and>
   log Logger_new ''abc'' [Arg_int 1] = FATAL ''extra arguments provided to log()'' \<and>
   length [Arg_int 1] < placeholders ''a=% b=%'' \<and>
   log Logger_new ''a=% b=%'' [Arg_int 1] = FATAL ''missing arguments to log()'' \<and>
   placeholders ''a=%'' = length [Arg_int 1] \<and>
   (\<exists>l'. log Logger_new ''a=%'' [Arg_int 1] = Inr l')"
proof -
  have r: "log_ready Logger_new" by (rule queue_ok_ready [OF Logger_new_ok(1)])
  have p: "placeholders ''abc'' < length [Arg_int 1]"
    "length [Arg_int 1] < placeholders ''a=% b=%''"
    "placeholders ''a=%'' = length [Arg_int 1]"
    by (simp_all add: placeholders_def)
  from log_mismatch_exits [OF r, of "''abc''" "[Arg_int 1]"]
    log_mismatch_exits [OF r, of "''a=% b=%''" "[Arg_int 1]"]
    log_mismatch_exits [OF r, of "''a=%''" "[Arg_int 1]"] r p
  show ?thesis by simp
qed

subsection \<open>Logger: tags and union members\<close>

text \<open>
  C10. Every push operation enqueues elements whose tag is the kind of the union member
  it wrote: \<^verbatim>\<open>CHAR\<close> for a \<^verbatim>\<open>char\<close> and for every character of a text, \<^verbatim>\<open>INTEGER\<close> for
  an \<^verbatim>\<open>int\<close>, and so on for each scalar overload (the elements are those of
  \<open>elems_of_arg\<close>). The flush pass then reads, for each element, the member its tag selects:
  it never reads an inactive member, and the text it writes for the pushed value is the
  text of that value as a value of its own kind.
\<close>

theorem push_then_flush_reads_member_written:
  assumes "queue_ok (log_queue l)"
    and "num_elements (log_queue l) + length (elems_of_arg a) \<le> length (store (log_queue l))"
    and "\<forall>e \<in> set (pending (log_queue l)). well_tagged e"
    and "arg_well_tagged a"
  shows "\<exists>l1 l2. pushValue l a = Inr l1 \<and>
           pending (log_queue l1) = pending (log_queue l) @ elems_of_arg a \<and>
           (\<forall>e \<in> set (elems_of_arg a). elem_type e = tag_of (elem_u e)) \<and>
           flush_pass sf sd l1 = Inr l2 \<and>
           log_file l2 =
             log_file l @ concat (map (text_of_elem sf sd) (pending (log_queue l))) @
             text_of sf sd a"
proof -
  let ?l1 = "l\<lparr>log_queue := foldl enqueue (log_queue l) (elems_of_arg a)\<rparr>"
  have l1: "pushValue l a = Inr ?l1" by (rule pushValue_eq [OF queue_ok_ready [OF assms(1)]])
  from foldl_enqueue_pending [OF assms(1,2)]
  have ok1: "queue_ok (log_queue ?l1)"
    and p1: "pending (log_queue ?l1) = pending (log_queue l) @ elems_of_arg a"
    by simp_all
  have wt: "\<forall>e \<in> set (elems_of_arg a). well_tagged e"
    using well_tagged_elems_of_arg [OF assms(4)] by blast
  with assms(3) p1 have "\<forall>e \<in> set (pending (log_queue ?l1)). well_tagged e" by auto
  from flush_pass_eq [OF ok1 this, of sf sd] obtain l2 where
    "flush_pass sf sd ?l1 = Inr l2"
    "log_file l2 = log_file ?l1 @ concat (map (text_of_elem sf sd) (pending (log_queue ?l1)))"
    by blast
  with l1 p1 wt show ?thesis by (simp add: text_of_elems_of_arg well_tagged_def)
qed

theorem push_then_flush_reads_member_written_witness:
  "\<exists>l1 l2. pushValue Logger_new (Arg_int (- 5)) = Inr l1 \<and>
     pending (log_queue l1) = [\<lparr>elem_type = INTEGER, elem_u = U_i (- 5)\<rparr>] \<and>
     flush_pass (\<lambda>v. []) (\<lambda>v. []) l1 = Inr l2 \<and> log_file l2 = ''-5''"
proof -
  have a: "num_elements (log_queue Logger_new) + length (elems_of_arg (Arg_int (- 5)))
             \<le> length (store (log_queue Logger_new))"
    by (simp add: Logger_new_ok)
  have b: "\<forall>e \<in> set (pending (log_queue Logger_new)). well_tagged e"
    by (simp add: Logger_new_ok)
  have c: "arg_well_tagged (Arg_int (- 5))" by (simp add: arg_well_tagged_def)
  have d: "show_int (- 5) = ''-5''" by (simp add: show_int_def show_nat.simps)
  from push_then_flush_reads_member_written [OF Logger_new_ok(1) a b c, of "\<lambda>v. []" "\<lambda>v. []"]
  show ?thesis by (simp add: Logger_new_ok d)
qed

subsection \<open>Multicast socket: \<^verbatim>\<open>send\<close>\<close>

lemma McastBufferSize_small: "McastBufferSize < 18446744073709551616"
  by (simp add: McastBufferSize_def)

text \<open>
  C7 (as the code has it). On a socket whose outbound buffer has its constructed size,
  \<^verbatim>\<open>send(data, len)\<close> returns exactly when the bytes end strictly below the capacity: it
  has then copied them into the outbound buffer at the high-water mark, left the rest of
  the buffer as it was, and advanced the mark by \<^verbatim>\<open>len\<close>. When the bytes end exactly at
  the capacity, they fit, and the call still ends the process.
\<close>

theorem send_appends_or_exits:
  assumes "length (outbound_data s) = McastBufferSize"
  shows "(next_send_valid_index s + length data < McastBufferSize \<longrightarrow>
            McastSocket_send s data =
              Inr (s\<lparr>outbound_data :=
                       take (next_send_valid_index s) (outbound_data s) @ data @
                       drop (next_send_valid_index s + length data) (outbound_data s),
                     next_send_valid_index := next_send_valid_index s + length data\<rparr>)) \<and>
         (next_send_valid_index s + length data = McastBufferSize \<longrightarrow>
            McastSocket_send s data =
              Inl (ASSERT_exit ''Mcast socket buffer filled up and sendAndRecv() not called.'')) \<and>
         ((\<exists>s'. McastSocket_send s data = Inr s') \<longrightarrow>
            next_send_valid_index s + length data < McastBufferSize)"
proof -
  have "size_t n = n" if "n \<le> McastBufferSize" for n
    using that McastBufferSize_small by (simp add: size_t_small)
  then show ?thesis
    using assms
    by (auto simp: McastSocket_send_def memcpy_into_def andThen_def ASSERT_def Let_def
        split: if_splits)
qed
theorem send_appends_or_exits_witness:
  "length (outbound_data McastSocket_new) = McastBufferSize \<and>
   next_send_valid_index McastSocket_new + length [1, 2, 3 :: byte] < McastBufferSize \<and>
   (\<exists>s'. McastSocket_send McastSocket_new [1, 2, 3] = Inr s' \<and>
      next_send_valid_index s' = 3 \<and> take 3 (outbound_data s') = [1, 2, 3]) \<and>
   next_send_valid_index (McastSocket_new\<lparr>next_send_valid_index := 67108861\<rparr>) +
     length [1, 2, 3 :: byte] = McastBufferSize \<and>
   McastSocket_send (McastSocket_new\<lparr>next_send_valid_index := 67108861\<rparr>) [1, 2, 3] =
     Inl (ASSERT_exit ''Mcast socket buffer filled up and sendAndRecv() not called.'')"
proof -
  have a: "length (outbound_data McastSocket_new) = McastBufferSize"
    by (simp add: McastSocket_new_def)
  have a': "length (outbound_data (McastSocket_new\<lparr>next_send_valid_index := 67108861\<rparr>)) =
            McastBufferSize"
    by (simp add: McastSocket_new_def)
  have b: "next_send_valid_index McastSocket_new + length [1, 2, 3 :: byte] < McastBufferSize"
    by (simp add: McastSocket_new_def McastBufferSize_def)
  have c: "next_send_valid_index (McastSocket_new\<lparr>next_send_valid_index := 67108861\<rparr>) +
     length [1, 2, 3 :: byte] = McastBufferSize"
    by (simp add: McastBufferSize_def)
  from send_appends_or_exits [OF a, of "[1, 2, 3]"] send_appends_or_exits [OF a', of "[1, 2, 3]"]
    a b c
  show ?thesis by (simp add: McastSocket_new_def)
qed

text \<open>
  C7 (as stated) fails: with the high-water mark one below the capacity, one more byte
  does not exceed the capacity, and \<^verbatim>\<open>send\<close> ends the process.
\<close>

theorem send_exits_on_exact_fit_counterexample:
  "McastSocket_send (McastSocket_new\<lparr>next_send_valid_index := 67108863\<rparr>) [65] =
     Inl (ASSERT_exit ''Mcast socket buffer filled up and sendAndRecv() not called.'') \<and>
   \<not> McastBufferSize <
       next_send_valid_index (McastSocket_new\<lparr>next_send_valid_index := 67108863\<rparr>) +
       length [65 :: byte]"
  by (simp add: McastSocket_send_def memcpy_into_def andThen_def ASSERT_def Let_def
      McastSocket_new_def McastBufferSize_def size_t_small)

subsection \<open>Multicast socket: \<^verbatim>\<open>sendAndRecv\<close>\<close>

text \<open>
  C8. Whenever \<^verbatim>\<open>sendAndRecv\<close> returns, the outbound high-water mark is zero, whatever
  was pending, whatever the callback did to the socket and whatever \<^verbatim>\<open>::send\<close> returned.
  And it does return when nothing was received, and when the bytes received fit the
  inbound buffer and the registered callback returns.
\<close>

theorem sendAndRecv_resets_send_index:
  "(\<forall>s' r w. McastSocket_sendAndRecv cb io s = Inr (s', r, w) \<longrightarrow>
      next_send_valid_index s' = 0) \<and>
   (recv_data io = None \<longrightarrow>
      McastSocket_sendAndRecv cb io s =
        Inr (s\<lparr>next_send_valid_index := 0\<rparr>, False,
             if next_send_valid_index s > 0
             then Some (take (next_send_valid_index s) (outbound_data s)) else None)) \<and>
   (\<forall>bs f s1. recv_data io = Some bs \<and> bs \<noteq> [] \<and>
      next_rcv_valid_index s < McastBufferSize \<and>
      length (inbound_data s) = McastBufferSize \<and> cb = Some f \<and>
      f (s\<lparr>inbound_data :=
             take (next_rcv_valid_index s) (inbound_data s) @
             take (McastBufferSize - next_rcv_valid_index s) bs @
             drop (next_rcv_valid_index s +
                   length (take (McastBufferSize - next_rcv_valid_index s) bs))
               (inbound_data s),
            next_rcv_valid_index :=
              next_rcv_valid_index s +
              length (take (McastBufferSize - next_rcv_valid_index s) bs)\<rparr>) = Inr s1 \<longrightarrow>
      (\<exists>w. McastSocket_sendAndRecv cb io s = Inr (s1\<lparr>next_send_valid_index := 0\<rparr>, True, w)))"
proof (intro conjI allI impI)
  fix s' r w
  assume "McastSocket_sendAndRecv cb io s = Inr (s', r, w)"
  then show "next_send_valid_index s' = 0"
    by (auto simp: McastSocket_sendAndRecv_def andThen_def Let_def
        split: prod.splits sum.splits)
next
  assume "recv_data io = None"
  then show "McastSocket_sendAndRecv cb io s =
        Inr (s\<lparr>next_send_valid_index := 0\<rparr>, False,
             if next_send_valid_index s > 0
             then Some (take (next_send_valid_index s) (outbound_data s)) else None)"
    by (simp add: McastSocket_sendAndRecv_def os_recv_def andThen_def)
next
  fix bs :: "byte list" and f s1
  let ?i = "next_rcv_valid_index s"
  let ?got = "take (McastBufferSize - ?i) bs"
  assume h: "recv_data io = Some bs \<and> bs \<noteq> [] \<and> ?i < McastBufferSize \<and>
      length (inbound_data s) = McastBufferSize \<and> cb = Some f \<and>
      f (s\<lparr>inbound_data :=
             take ?i (inbound_data s) @ ?got @ drop (?i + length ?got) (inbound_data s),
            next_rcv_valid_index := ?i + length ?got\<rparr>) = Inr s1"
  have m: "size_t_sub McastBufferSize ?i = McastBufferSize - ?i"
    using h McastBufferSize_small by (simp add: size_t_sub_small)
  have pos: "0 < length ?got" using h by (cases bs) auto
  from h have i: "?i < McastBufferSize" by blast
  have "length ?got \<le> McastBufferSize - ?i" by simp
  with i have le: "?i + length ?got \<le> McastBufferSize" by linarith
  then have sz: "size_t (?i + length ?got) = ?i + length ?got"
    using McastBufferSize_small by (simp add: size_t_small del: length_take)
  show "\<exists>w. McastSocket_sendAndRecv cb io s = Inr (s1\<lparr>next_send_valid_index := 0\<rparr>, True, w)"
    using h pos le sz
    by (simp add: McastSocket_sendAndRecv_def os_recv_def andThen_def memcpy_into_def m
        Let_def del: length_take)
qed

theorem sendAndRecv_resets_send_index_witness:
  "recv_data \<lparr>recv_data = None, send_result = 1\<rparr> = None \<and>
   McastSocket_sendAndRecv None \<lparr>recv_data = None, send_result = 1\<rparr>
     (McastSocket_new\<lparr>outbound_data := [1, 2, 3] @ replicate 67108861 0,
                       next_send_valid_index := 3\<rparr>) =
     Inr (McastSocket_new\<lparr>outbound_data := [1, 2, 3] @ replicate 67108861 0,
                           next_send_valid_index := 0\<rparr>, False, Some [1, 2, 3]) \<and>
   next_send_valid_index
     (McastSocket_new\<lparr>outbound_data := [1, 2, 3] @ replicate 67108861 0,
                       next_send_valid_index := 0\<rparr>) = 0"
  using sendAndRecv_resets_send_index
    [of None "\<lparr>recv_data = None, send_result = 1\<rparr>"
      "McastSocket_new\<lparr>outbound_data := [1, 2, 3] @ replicate 67108861 0,
                        next_send_valid_index := 3\<rparr>"]
  by simp

subsection \<open>Reactor: the batch-finished callback\<close>

lemma calls_made_Nil: "calls_made sar [] ws rs \<longleftrightarrow> (\<exists>w. ws = [w]) \<and> rs = []"
  by (auto simp: calls_made_def length_Suc_conv)

lemma calls_made_Cons:
  "calls_made sar (p # ps) ws rs \<longleftrightarrow>
     (\<exists>w ws' r rs'. ws = w # ws' \<and> rs = r # rs' \<and> sar p w = Inr (hd ws', r) \<and>
        calls_made sar ps ws' rs')"
proof
  assume c: "calls_made sar (p # ps) ws rs"
  then obtain w ws' where ws: "ws = w # ws'" "length ws' = Suc (length ps)"
    by (auto simp: calls_made_def length_Suc_conv)
  from c obtain r rs' where rs: "rs = r # rs'" "length rs' = length ps"
    by (auto simp: calls_made_def length_Suc_conv)
  from c have all: "\<forall>i < Suc (length ps). sar ((p # ps) ! i) (ws ! i) = Inr (ws ! Suc i, rs ! i)"
    by (simp add: calls_made_def)
  from all have "sar p w = Inr (ws' ! 0, r)" using ws rs by auto
  moreover from ws(2) have "ws' ! 0 = hd ws'" by (cases ws') auto
  moreover have "calls_made sar ps ws' rs'"
    unfolding calls_made_def
  proof (intro conjI allI impI)
    fix i assume "i < length ps"
    then have "Suc i < Suc (length ps)" by simp
    with all have "sar ((p # ps) ! Suc i) (ws ! Suc i) = Inr (ws ! Suc (Suc i), rs ! Suc i)"
      by blast
    then show "sar (ps ! i) (ws' ! i) = Inr (ws' ! Suc i, rs' ! i)" using ws rs by simp
  qed (use ws rs in auto)
  ultimately show "\<exists>w ws' r rs'. ws = w # ws' \<and> rs = r # rs' \<and> sar p w = Inr (hd ws', r) \<and>
        calls_made sar ps ws' rs'"
    using ws rs by auto
next
  assume "\<exists>w ws' r rs'. ws = w # ws' \<and> rs = r # rs' \<and> sar p w = Inr (hd ws', r) \<and>
        calls_made sar ps ws' rs'"
  then obtain w ws' r rs' where d: "ws = w # ws'" "rs = r # rs'" "sar p w = Inr (hd ws', r)"
    "calls_made sar ps ws' rs'" by blast
  from d(4) have len: "length ws' = Suc (length ps)" "length rs' = length ps"
    and all: "\<forall>i < length ps. sar (ps ! i) (ws' ! i) = Inr (ws' ! Suc i, rs' ! i)"
    by (simp_all add: calls_made_def)
  from len(1) have h: "hd ws' = ws' ! 0" by (cases ws') auto
  show "calls_made sar (p # ps) ws rs"
    unfolding calls_made_def
  proof (intro conjI allI impI)
    fix i assume i: "i < length (p # ps)"
    show "sar ((p # ps) ! i) (ws ! i) = Inr (ws ! Suc i, rs ! i)"
    proof (cases i)
      case 0
      with d h show ?thesis by simp
    next
      case (Suc j)
      with i all d show ?thesis by simp
    qed
  qed (use d len in auto)
qed

lemma calls_made_length: "calls_made sar ps ws rs \<Longrightarrow> ws \<noteq> [] \<and> length rs = length ps"
  by (auto simp: calls_made_def)

lemma recv_pass_of_calls:
  "calls_made sar ps ws rs \<Longrightarrow>
   recv_pass sar ps recv (hd ws) =
     Inr (last ws, recv \<or> True \<in> set rs, map2 Socket_sendAndRecv ps rs)"
proof (induction ps arbitrary: ws rs recv)
  case Nil
  then show ?case by (auto simp: calls_made_Nil)
next
  case (Cons p ps)
  from Cons.prems obtain w ws' r rs' where d: "ws = w # ws'" "rs = r # rs'"
    "sar p w = Inr (hd ws', r)" "calls_made sar ps ws' rs'"
    unfolding calls_made_Cons by blast
  from calls_made_length [OF d(4)] have ne: "ws' \<noteq> []" by simp
  from Cons.IH [OF d(4), of "recv \<or> r"] d ne show ?case by auto
qed

lemma calls_of_recv_pass:
  "recv_pass sar ps recv w = Inr (w1, recv', tr) \<Longrightarrow> \<exists>ws rs. calls_made sar ps ws rs \<and> hd ws = w"
proof (induction ps arbitrary: recv w w1 recv' tr)
  case Nil
  show ?case by (auto simp: calls_made_Nil)
next
  case (Cons p ps)
  from Cons.prems obtain w2 r w3 tr2 where
    s: "sar p w = Inr (w2, r)" and
    rest: "recv_pass sar ps (recv \<or> r) w2 = Inr (w3, recv', tr2)"
    by (auto split: sum.splits prod.splits)
  from Cons.IH [OF rest] obtain ws rs where c: "calls_made sar ps ws rs" "hd ws = w2" by blast
  have "calls_made sar (p # ps) (w # ws) (r # rs)"
    unfolding calls_made_Cons using c s by simp
  then show ?case by (intro exI [of _ "w # ws"] exI [of _ "r # rs"]) simp
qed

lemma send_pass_of_calls:
  "calls_made sar ps ws rs \<Longrightarrow>
   send_pass sar ps (hd ws) = Inr (last ws, map2 Socket_sendAndRecv ps rs)"
proof (induction ps arbitrary: ws rs)
  case Nil
  then show ?case by (auto simp: calls_made_Nil)
next
  case (Cons p ps)
  from Cons.prems obtain w ws' r rs' where d: "ws = w # ws'" "rs = r # rs'"
    "sar p w = Inr (hd ws', r)" "calls_made sar ps ws' rs'"
    unfolding calls_made_Cons by blast
  from calls_made_length [OF d(4)] have ne: "ws' \<noteq> []" by simp
  from Cons.IH [OF d(4)] d ne show ?case by auto
qed

lemma calls_of_send_pass:
  "send_pass sar ps w = Inr (w1, tr) \<Longrightarrow> \<exists>ws rs. calls_made sar ps ws rs \<and> hd ws = w"
proof (induction ps arbitrary: w w1 tr)
  case Nil
  show ?case by (auto simp: calls_made_Nil)
next
  case (Cons p ps)
  from Cons.prems obtain w2 r w3 tr2 where
    s: "sar p w = Inr (w2, r)" and
    rest: "send_pass sar ps w2 = Inr (w3, tr2)"
    by (auto split: sum.splits prod.splits)
  from Cons.IH [OF rest] obtain ws rs where c: "calls_made sar ps ws rs" "hd ws = w2" by blast
  have "calls_made sar (p # ps) (w # ws) (r # rs)"
    unfolding calls_made_Cons using c s by simp
  then show ?case by (intro exI [of _ "w # ws"] exI [of _ "r # rs"]) simp
qed

lemma count_list_absent: "x \<notin> set xs \<Longrightarrow> count_list xs x = 0"
  by (induction xs) auto

lemma count_list_calls:
  "count_list (map2 Socket_sendAndRecv ps rs) Recv_finished_callback = 0"
  by (rule count_list_absent) auto

text \<open>
  C6. A tick of the reactor returns with the world \<open>w'\<close> and the trace \<open>tr\<close> exactly when:
  \<^verbatim>\<open>sendAndRecv\<close> is called, and returns, on every socket of the read-interest set, in
  order, from the world \<open>w\<close>; if one of these calls reported bytes received, a
  batch-finished callback is registered and is called, once, in the world the last of
  them left, and returns; otherwise nothing is called; then \<^verbatim>\<open>sendAndRecv\<close> is called,
  and returns, on every socket of the write-interest set, which leaves \<open>w'\<close>. The trace
  lists these calls with the flags they reported, and the callback occurs in it once if
  some socket of the read-interest set received and not at all otherwise, whatever the
  number of sockets that received.
\<close>

theorem tick_fires_callback_once:
  "TCPServer_sendAndRecv sar cb srv w = Inr (w', tr) \<longleftrightarrow>
     (\<exists>ws rs vs ss.
        calls_made sar (receive_sockets srv) ws rs \<and> hd ws = w \<and>
        (if True \<in> set rs then (\<exists>f. cb = Some f \<and> f (last ws) = Inr (hd vs))
         else hd vs = last ws) \<and>
        calls_made sar (send_sockets srv) vs ss \<and> last vs = w' \<and>
        tr = map2 Socket_sendAndRecv (receive_sockets srv) rs @
             (if True \<in> set rs then [Recv_finished_callback] else []) @
             map2 Socket_sendAndRecv (send_sockets srv) ss \<and>
        count_list tr Recv_finished_callback = (if True \<in> set rs then 1 else 0))"
  (is "?L \<longleftrightarrow> ?R")
proof
  assume ?L
  then obtain w1 recv tr1 w2 tr2 tr3 where
    p1: "recv_pass sar (receive_sockets srv) False w = Inr (w1, recv, tr1)" and
    p2: "(if recv then
            (case cb of None \<Rightarrow> Inl (Terminate ''bad_function_call'')
             | Some f \<Rightarrow> andThen (f w1) (\<lambda>w2. Inr (w2, [Recv_finished_callback])))
          else Inr (w1, [])) = Inr (w2, tr2)" and
    p3: "send_pass sar (send_sockets srv) w2 = Inr (w', tr3)" and
    tr: "tr = tr1 @ tr2 @ tr3"
    unfolding TCPServer_sendAndRecv_def by (auto split: sum.splits prod.splits)
  from calls_of_recv_pass [OF p1] obtain ws rs where
    c1: "calls_made sar (receive_sockets srv) ws rs" "hd ws = w" by blast
  from recv_pass_of_calls [OF c1(1), of False] p1 c1(2)
  have r1: "w1 = last ws" "recv \<longleftrightarrow> True \<in> set rs"
    "tr1 = map2 Socket_sendAndRecv (receive_sockets srv) rs" by simp_all
  from calls_of_send_pass [OF p3] obtain vs ss where
    c3: "calls_made sar (send_sockets srv) vs ss" "hd vs = w2" by blast
  from send_pass_of_calls [OF c3(1)] p3 c3(2)
  have r3: "w' = last vs" "tr3 = map2 Socket_sendAndRecv (send_sockets srv) ss" by simp_all
  from p2 have tr2: "tr2 = (if recv then [Recv_finished_callback] else [])"
    by (auto simp: andThen_def split: if_splits option.splits sum.splits)
  from p2 have cbk: "if recv then (\<exists>f. cb = Some f \<and> f w1 = Inr w2) else w2 = w1"
    by (auto simp: andThen_def split: if_splits option.splits sum.splits)
  have cnt: "count_list tr Recv_finished_callback = (if True \<in> set rs then 1 else 0)"
    unfolding tr tr2 r1 r3 by (simp add: count_list_calls)
  from cbk r1(1,2) c3(2)
  have cbk': "if True \<in> set rs then (\<exists>f. cb = Some f \<and> f (last ws) = Inr (hd vs))
              else hd vs = last ws"
    by (auto split: if_splits)
  have tr': "tr = map2 Socket_sendAndRecv (receive_sockets srv) rs @
             (if True \<in> set rs then [Recv_finished_callback] else []) @
             map2 Socket_sendAndRecv (send_sockets srv) ss"
    unfolding tr tr2 r1 r3 by simp
  from c1 cbk' c3(1) r3(1) tr' cnt show ?R by blast
next
  assume ?R
  then obtain ws rs vs ss where
    c1: "calls_made sar (receive_sockets srv) ws rs" "hd ws = w" and
    cbk: "if True \<in> set rs then (\<exists>f. cb = Some f \<and> f (last ws) = Inr (hd vs))
          else hd vs = last ws" and
    c3: "calls_made sar (send_sockets srv) vs ss" "last vs = w'" and
    tr: "tr = map2 Socket_sendAndRecv (receive_sockets srv) rs @
             (if True \<in> set rs then [Recv_finished_callback] else []) @
             map2 Socket_sendAndRecv (send_sockets srv) ss"
    by blast
  from recv_pass_of_calls [OF c1(1), of False] c1(2)
  have p1: "recv_pass sar (receive_sockets srv) False w =
              Inr (last ws, True \<in> set rs, map2 Socket_sendAndRecv (receive_sockets srv) rs)"
    by simp
  from send_pass_of_calls [OF c3(1)] c3(2)
  have p3: "send_pass sar (send_sockets srv) (hd vs) =
              Inr (w', map2 Socket_sendAndRecv (send_sockets srv) ss)"
    by simp
  show ?L
    unfolding TCPServer_sendAndRecv_def p1 using cbk p3 tr
    by (auto simp: andThen_def)
qed


theorem tick_fires_callback_once_witness:
  "(\<exists>w' ws vs.
      TCPServer_sendAndRecv
        (tcp_sar (Some (\<lambda>s. Inr (s\<lparr>tcp_next_rcv_valid_index := 0\<rparr>)))) (Some Inr)
        \<lparr>kqueue_fd = 3, listener_socket = 0, receive_sockets = [1, 2], send_sockets = [2]\<rparr>
        \<lparr>socks = (\<lambda>p. if p = 1 \<or> p = 2 then Some TCPSocket_new else None),
         os = (\<lambda>p. if p = 1 then \<lparr>recv_data = Some [104, 105], send_result = 0\<rparr>
                    else if p = 2 then \<lparr>recv_data = Some [33], send_result = 0\<rparr>
                    else \<lparr>recv_data = None, send_result = 0\<rparr>)\<rparr> =
        Inr (w', [Socket_sendAndRecv 1 True, Socket_sendAndRecv 2 True, Recv_finished_callback,
                  Socket_sendAndRecv 2 False]) \<and>
      calls_made (tcp_sar (Some (\<lambda>s. Inr (s\<lparr>tcp_next_rcv_valid_index := 0\<rparr>)))) [1, 2] ws
        [True, True] \<and>
      hd vs = last ws \<and>
      calls_made (tcp_sar (Some (\<lambda>s. Inr (s\<lparr>tcp_next_rcv_valid_index := 0\<rparr>)))) [2] vs
        [False] \<and>
      last vs = w' \<and>
      count_list [Socket_sendAndRecv 1 True, Socket_sendAndRecv 2 True, Recv_finished_callback,
                  Socket_sendAndRecv 2 False] Recv_finished_callback = 1) \<and>
   (\<exists>w' ws.
      TCPServer_sendAndRecv (tcp_sar None) None
        \<lparr>kqueue_fd = 3, listener_socket = 0, receive_sockets = [1, 2], send_sockets = []\<rparr>
        \<lparr>socks = (\<lambda>p. if p = 1 \<or> p = 2 then Some TCPSocket_new else None),
         os = (\<lambda>p. \<lparr>recv_data = None, send_result = 0\<rparr>)\<rparr> =
        Inr (w', [Socket_sendAndRecv 1 False, Socket_sendAndRecv 2 False]) \<and>
      calls_made (tcp_sar None) [1, 2] ws [False, False] \<and> last ws = w')"
proof -
  let ?sar = "tcp_sar (Some (\<lambda>s. Inr (s\<lparr>tcp_next_rcv_valid_index := 0\<rparr>)))"
  let ?srv = "\<lparr>kqueue_fd = 3, listener_socket = 0, receive_sockets = [1, 2], send_sockets = [2]\<rparr>"
  let ?w = "\<lparr>socks = (\<lambda>p. if p = 1 \<or> p = 2 then Some TCPSocket_new else None),
           os = (\<lambda>p. if p = 1 then \<lparr>recv_data = Some [104, 105], send_result = 0\<rparr>
                      else if p = 2 then \<lparr>recv_data = Some [33], send_result = 0\<rparr>
                      else \<lparr>recv_data = None, send_result = 0\<rparr>)\<rparr>"
  let ?tr = "[Socket_sendAndRecv 1 True, Socket_sendAndRecv 2 True, Recv_finished_callback,
              Socket_sendAndRecv 2 False]"
  let ?srvn = "\<lparr>kqueue_fd = 3, listener_socket = 0, receive_sockets = [1, 2], send_sockets = []\<rparr>"
  let ?wn = "\<lparr>socks = (\<lambda>p. if p = 1 \<or> p = 2 then Some TCPSocket_new else None),
           os = (\<lambda>p. \<lparr>recv_data = None, send_result = 0\<rparr>)\<rparr>"
  let ?trn = "[Socket_sendAndRecv 1 False, Socket_sendAndRecv 2 False]"
  have sz: "size_t_sub 67108864 0 = 67108864"
    by (simp add: size_t_sub_small)
  have "\<exists>w'. TCPServer_sendAndRecv ?sar (Some Inr) ?srv ?w = Inr (w', ?tr)"
    by (simp add: TCPServer_sendAndRecv_def tcp_sar_def TCPSocket_sendAndRecv_def
        TCPSocket_new_def os_recv_def memcpy_into_def andThen_def sz size_t_small
        TCPBufferSize_def)
  then obtain w' where w': "TCPServer_sendAndRecv ?sar (Some Inr) ?srv ?w = Inr (w', ?tr)"
    by blast
  from tick_fires_callback_once [THEN iffD1, OF w', simplified TCPServer.select_convs]
  obtain ws rs vs ss where
    c: "calls_made ?sar [1, 2] ws rs"
      "if True \<in> set rs then (\<exists>f. Some Inr = Some f \<and> f (last ws) = (Inr (hd vs) :: fault + tcp_world))
       else hd vs = last ws"
      "calls_made ?sar [2] vs ss" "last vs = w'"
      "?tr = map2 Socket_sendAndRecv [1, 2] rs @
             (if True \<in> set rs then [Recv_finished_callback] else []) @
             map2 Socket_sendAndRecv [2] ss"
      "count_list ?tr Recv_finished_callback = (if True \<in> set rs then 1 else 0)"
    by (elim exE conjE) (rule that)
  from calls_made_length [OF c(1)] obtain r1 r2 where rs: "rs = [r1, r2]"
    by (auto simp: length_Suc_conv)
  from calls_made_length [OF c(3)] obtain s1 where ss: "ss = [s1]"
    by (auto simp: length_Suc_conv)
  from c(5) have flags: "rs = [True, True]" "ss = [False]"
    unfolding rs ss by (simp_all split: if_splits)
  from c(2) have "hd vs = last ws" unfolding flags by simp
  with w' c(1,3,4,6) have first: "\<exists>w' ws vs.
      TCPServer_sendAndRecv ?sar (Some Inr) ?srv ?w = Inr (w', ?tr) \<and>
      calls_made ?sar [1, 2] ws [True, True] \<and> hd vs = last ws \<and>
      calls_made ?sar [2] vs [False] \<and> last vs = w' \<and>
      count_list ?tr Recv_finished_callback = 1"
    unfolding flags by auto
  have "\<exists>w'. TCPServer_sendAndRecv (tcp_sar None) None ?srvn ?wn = Inr (w', ?trn)"
    by (simp add: TCPServer_sendAndRecv_def tcp_sar_def TCPSocket_sendAndRecv_def
        TCPSocket_new_def os_recv_def memcpy_into_def andThen_def sz size_t_small
        TCPBufferSize_def)
  then obtain v' where v': "TCPServer_sendAndRecv (tcp_sar None) None ?srvn ?wn = Inr (v', ?trn)"
    by blast
  from tick_fires_callback_once [THEN iffD1, OF v', simplified TCPServer.select_convs]
  obtain ws0 rs0 vs0 ss0 where
    c0: "calls_made (tcp_sar None) [1, 2] ws0 rs0"
      "if True \<in> set rs0 then (\<exists>f. None = Some f \<and> f (last ws0) = (Inr (hd vs0) :: fault + tcp_world))
       else hd vs0 = last ws0"
      "calls_made (tcp_sar None) [] vs0 ss0" "last vs0 = v'"
      "?trn = map2 Socket_sendAndRecv [1, 2] rs0 @
             (if True \<in> set rs0 then [Recv_finished_callback] else []) @
             map2 Socket_sendAndRecv [] ss0"
    by (elim exE conjE) (rule that)
  from calls_made_length [OF c0(1)] obtain q1 q2 where rs0: "rs0 = [q1, q2]"
    by (auto simp: length_Suc_conv)
  from c0(5) have flags0: "rs0 = [False, False]"
    unfolding rs0 by (simp split: if_splits)
  from c0(3) obtain x where "vs0 = [x]" by (auto simp: calls_made_Nil)
  with c0(2,4) have "last ws0 = v'" unfolding flags0 by simp
  with v' c0(1) have second: "\<exists>w' ws.
      TCPServer_sendAndRecv (tcp_sar None) None ?srvn ?wn = Inr (w', ?trn) \<and>
      calls_made (tcp_sar None) [1, 2] ws [False, False] \<and> last ws = w'"
    unfolding flags0 by auto
  from first second show ?thesis by blast
qed

subsection \<open>Socket setup: the calls made for a listening socket\<close>

lemma next_do_no_bind:
  assumes "filter is_bind (fst m) = []"
    and "\<And>x. filter is_bind (fst (f x)) = []"
  shows "filter is_bind (fst (next_do m f)) = []"
proof (cases m)
  case (Pair tr r)
  show ?thesis
  proof (cases r)
    case (Inl e)
    with Pair assms(1) show ?thesis by (simp add: next_do_def)
  next
    case (Inr x)
    with Pair assms(1) assms(2) [of x] show ?thesis
      by (cases "f x") (simp add: next_do_def)
  qed
qed

lemma check_no_bind: "filter is_bind (fst (check b msg)) = []"
  by (simp add: check_def)

lemma when_do_no_bind:
  "filter is_bind (fst m) = [] \<Longrightarrow> filter is_bind (fst (when_do b m)) = []"
  by (simp add: when_do_def)

lemma call_no_bind: "\<not> is_bind c \<Longrightarrow> filter is_bind (fst (call c r)) = []"
  by (simp add: call_def)

lemma not_is_bind:
  "\<not> is_bind (Call_getaddrinfo a b c)" "\<not> is_bind (Call_socket u)"
  "\<not> is_bind (Call_setNonBlocking fd)" "\<not> is_bind (Call_disableNagle fd)"
  "\<not> is_bind (Call_connect fd addr)" "\<not> is_bind (Call_setsockopt_REUSEADDR fd)"
  "\<not> is_bind (Call_listen fd n)" "\<not> is_bind (Call_setSOTimestamp fd)"
  "\<not> is_bind Call_kqueue" "\<not> is_bind (Call_kevent_add_read kq fd)"
  by (simp_all add: is_bind_def)

lemma createSocket_no_bind: "filter is_bind (fst (createSocket env cfg)) = []"
  unfolding createSocket_def Let_def
  by (cases "getaddrinfo_list env")
    (auto intro!: next_do_no_bind when_do_no_bind check_no_bind call_no_bind not_is_bind)

lemma TCPServer_listen_no_bind:
  "filter is_bind (fst (TCPServer_listen ts env srv listener iface port)) = []"
  unfolding TCPServer_listen_def TCPSocket_connect_def addToEpollList_def Let_def
  by (auto intro!: next_do_no_bind check_no_bind call_no_bind createSocket_no_bind not_is_bind)

text \<open>
  C2 (what the code does). No setup ever binds: neither \<^verbatim>\<open>createSocket\<close>, for any
  configuration and any behaviour of the operating system, nor \<^verbatim>\<open>TCPServer::listen\<close>
  makes the call that binds the descriptor to an address. With every call succeeding,
  \<^verbatim>\<open>listen("lo0", 8080)\<close> creates the event queue, resolves the address, creates the
  descriptor, makes it non-blocking, disables coalescing, sets \<^verbatim>\<open>SO_REUSEADDR\<close>, calls
  \<^verbatim>\<open>listen\<close> twice on the unbound descriptor and registers it for read-readiness.
\<close>

theorem listen_setup_never_binds:
  "filter is_bind (fst (createSocket env cfg)) = [] \<and>
   filter is_bind (fst (TCPServer_listen ts env srv listener iface port)) = [] \<and>
   TCPServer_listen False all_succeed
     \<lparr>kqueue_fd = - 1, listener_socket = 0, receive_sockets = [], send_sockets = []\<rparr>
     TCPSocket_new ''lo0'' 8080 =
     ([Call_kqueue, Call_getaddrinfo ''127.0.0.1'' ''8080'' True, Call_socket False,
       Call_setNonBlocking 7, Call_disableNagle 7, Call_setsockopt_REUSEADDR 7,
       Call_listen 7 1024, Call_listen 7 1024, Call_kevent_add_read 3 7],
      Inr (\<lparr>kqueue_fd = 3, listener_socket = 0, receive_sockets = [], send_sockets = []\<rparr>,
           TCPSocket_new\<lparr>tcp_socket_fd := 7\<rparr>))"
proof -
  have "TCPServer_listen False all_succeed
     \<lparr>kqueue_fd = - 1, listener_socket = 0, receive_sockets = [], send_sockets = []\<rparr>
     TCPSocket_new ''lo0'' 8080 =
     ([Call_kqueue, Call_getaddrinfo ''127.0.0.1'' ''8080'' True, Call_socket False,
       Call_setNonBlocking 7, Call_disableNagle 7, Call_setsockopt_REUSEADDR 7,
       Call_listen 7 1024, Call_listen 7 1024, Call_kevent_add_read 3 7],
      Inr (\<lparr>kqueue_fd = 3, listener_socket = 0, receive_sockets = [], send_sockets = []\<rparr>,
           TCPSocket_new\<lparr>tcp_socket_fd := 7\<rparr>))"
    by (simp add: TCPServer_listen_def TCPSocket_connect_def addToEpollList_def
        createSocket_def all_succeed_def next_do_def call_def check_def when_do_def
        ASSERT_def MaxTCPServerBacklog_def show_int_def show_nat.simps)
  with createSocket_no_bind TCPServer_listen_no_bind show ?thesis by blast
qed

end
